theory Spec2Isabelle
  imports Main "HOL-Library.AList"
begin

section \<open>JavaScript values and the object heap\<close>

text \<open>
  The library (\<^verbatim>\<open>index.js\<close>) consists of three classes, \<^verbatim>\<open>Signal\<close>,
  \<^verbatim>\<open>SignalGroup\<close> and \<^verbatim>\<open>Store\<close>, and the factory \<^verbatim>\<open>createStore\<close>.
  Values that travel through a store (states, updaters, emitted arguments) are modelled by
  \<open>jsval\<close>. A function value is identified by its reference \<open>Fn f\<close>; a plain object
  lives in the heap and is denoted by its address \<open>Ref a\<close>, so that two objects with
  equal contents are still told apart. Numbers are modelled as integers; arrays, symbols
  and bigints do not occur as state values in this model.
\<close>

type_synonym fid = nat
type_synonym addr = nat

datatype jsval =
    Undefined
  | Null
  | Bool bool
  | Num int
  | Str string
  | Fn fid
  | Ref addr

text \<open>The \<^verbatim>\<open>typeof\<close> operator; note \<^verbatim>\<open>typeof null === "object"\<close>.\<close>

fun typeof :: "jsval \<Rightarrow> string" where
  "typeof Undefined = ''undefined''"
| "typeof Null = ''object''"
| "typeof (Bool b) = ''boolean''"
| "typeof (Num n) = ''number''"
| "typeof (Str s) = ''string''"
| "typeof (Fn f) = ''function''"
| "typeof (Ref a) = ''object''"

text \<open>Truthiness, as used by \<^verbatim>\<open>obj && ...\<close>.\<close>

fun truthy :: "jsval \<Rightarrow> bool" where
  "truthy Undefined = False"
| "truthy Null = False"
| "truthy (Bool b) = b"
| "truthy (Num n) = (n \<noteq> 0)"
| "truthy (Str s) = (s \<noteq> [])"
| "truthy (Fn f) = True"
| "truthy (Ref a) = True"

text \<open>
  A plain object is its list of own enumerable properties in insertion order;
  \<open>AList.update\<close> overwrites an existing key in place and appends a new one, as property
  assignment does. The heap is a list of objects; the address of an object is its index
  and allocation appends, so an address is never reused.
\<close>

type_synonym props = "(string \<times> jsval) list"
type_synonym heap = "props list"

datatype exn = TypeError string | Thrown jsval

definition alloc :: "heap \<Rightarrow> props \<Rightarrow> heap \<times> jsval" where
  "alloc h ps = (h @ [ps], Ref (length h))"

text \<open>A value is allocated in a heap when it is not a dangling reference.\<close>

fun allocated :: "heap \<Rightarrow> jsval \<Rightarrow> bool" where
  "allocated h (Ref a) = (a < length h)"
| "allocated h v = True"

text \<open>The decimal digits of a character index, as a property key.\<close>

definition digits :: string where
  "digits = ''0123456789''"

fun string_of_nat :: "nat \<Rightarrow> string" where
  "string_of_nat n =
     (if n < 10 then [digits ! n] else string_of_nat (n div 10) @ [digits ! (n mod 10)])"

text \<open>
  The own enumerable properties that a spread \<^verbatim>\<open>...v\<close> inside an object literal
  copies: those of the object for a reference, the indexed characters for a string, and
  nothing for \<^verbatim>\<open>undefined\<close>, \<^verbatim>\<open>null\<close>, booleans, numbers and functions.
\<close>

fun spread :: "heap \<Rightarrow> jsval \<Rightarrow> props" where
  "spread h (Ref a) = (if a < length h then h ! a else [])"
| "spread h (Str s) = zip (map string_of_nat [0..<length s]) (map (\<lambda>c. Str [c]) s)"
| "spread h v = []"

text \<open>
  The object literal \<^verbatim>\<open>{ ...v1, ...v2 }\<close>: a new object that receives the properties of
  each spread value in turn, later ones overwriting earlier ones.
\<close>

definition literal_props :: "heap \<Rightarrow> jsval list \<Rightarrow> props" where
  "literal_props h vs = fold (\<lambda>v ps. fold (\<lambda>(k, x). AList.update k x) (spread h v) ps) vs []"

definition object_literal :: "heap \<Rightarrow> jsval list \<Rightarrow> heap \<times> jsval" where
  "object_literal h vs = alloc h (literal_props h vs)"

text \<open>
  The property read \<^verbatim>\<open>obj[key]\<close> on a state value. Own properties of plain objects and
  the index and \<^verbatim>\<open>length\<close> properties of strings are represented; what a value inherits
  from its prototype is not, and reads as \<open>Undefined\<close>: for a key such as
  \<^verbatim>\<open>toString\<close>, which every object inherits, the code finds the inherited method where
  this function gives \<open>Undefined\<close>. The statements about \<^verbatim>\<open>select\<close> below hold
  whatever such a read gives, or read keys that no object inherits.
\<close>

fun get_prop :: "heap \<Rightarrow> jsval \<Rightarrow> string \<Rightarrow> jsval" where
  "get_prop h (Ref a) key =
     (if a < length h then (case map_of (h ! a) key of Some v \<Rightarrow> v | None \<Rightarrow> Undefined)
      else Undefined)"
| "get_prop h (Str s) key =
     (case find (\<lambda>i. string_of_nat i = key) [0..<length s] of
        Some i \<Rightarrow> Str [s ! i]
      | None \<Rightarrow> if key = ''length'' then Num (int (length s)) else Undefined)"
| "get_prop h v key = Undefined"

section \<open>Signal\<close>

text \<open>
  \<^verbatim>\<open>this.listeners = new Set()\<close>. A JavaScript \<^verbatim>\<open>Set\<close> keeps its elements in a list
  in insertion order: \<^verbatim>\<open>add\<close> appends a value that is not yet present, \<^verbatim>\<open>delete\<close> and
  \<^verbatim>\<open>clear\<close> replace entries by the marker \<^emph>\<open>empty\<close> (\<open>None\<close> here) without moving the
  others. This is what makes a running \<^verbatim>\<open>forEach\<close> see later changes.
\<close>

type_synonym set_data = "fid option list"

definition set_add :: "set_data \<Rightarrow> fid \<Rightarrow> set_data" where
  "set_add es f = (if Some f \<in> set es then es else es @ [Some f])"

definition set_delete :: "set_data \<Rightarrow> fid \<Rightarrow> set_data \<times> bool" where
  "set_delete es f = (map (\<lambda>e. if e = Some f then None else e) es, Some f \<in> set es)"

definition set_clear :: "set_data \<Rightarrow> set_data" where
  "set_clear es = map (\<lambda>e. None) es"

text \<open>The elements of the set, in insertion order.\<close>

definition set_values :: "set_data \<Rightarrow> fid list" where
  "set_values es = List.map_filter id es"

definition set_size :: "set_data \<Rightarrow> nat" where
  "set_size es = length (set_values es)"

text \<open>No value occupies two entries: the invariant of every \<^verbatim>\<open>Set\<close>.\<close>

definition set_ok :: "set_data \<Rightarrow> bool" where
  "set_ok es = distinct (set_values es)"

record signal =
  listeners :: set_data

definition Signal_new :: signal where
  "Signal_new = \<lparr>listeners = []\<rparr>"

text \<open>
  \<^verbatim>\<open>connect\<close> returns a closure that disconnects the listener; the closure is
  represented by the listener it captured.
\<close>

datatype handle = Handle fid

definition Signal_disconnect :: "jsval \<Rightarrow> signal \<Rightarrow> bool \<times> signal" where
  "Signal_disconnect listener s =
     (case listener of
        Fn f \<Rightarrow> (snd (set_delete (listeners s) f),
                 s\<lparr>listeners := fst (set_delete (listeners s) f)\<rparr>)
      | _ \<Rightarrow> (False, s))"

definition Signal_connect :: "jsval \<Rightarrow> signal \<Rightarrow> exn + handle \<times> signal" where
  "Signal_connect listener s =
     (if typeof listener \<noteq> ''function''
      then Inl (TypeError ''Signal listener must be a function'')
      else case listener of
             Fn f \<Rightarrow> Inr (Handle f, s\<lparr>listeners := set_add (listeners s) f\<rparr>)
           | _ \<Rightarrow> Inl (TypeError ''Signal listener must be a function''))"

fun call_handle :: "handle \<Rightarrow> signal \<Rightarrow> signal" where
  "call_handle (Handle f) s = snd (Signal_disconnect (Fn f) s)"

definition Signal_clear :: "signal \<Rightarrow> signal" where
  "Signal_clear s = s\<lparr>listeners := set_clear (listeners s)\<rparr>"

definition listenerCount :: "signal \<Rightarrow> nat" where
  "listenerCount s = set_size (listeners s)"

subsection \<open>Listeners and emission\<close>

text \<open>
  Listeners are code of the caller. A listener is described by what it does when it is
  called with given arguments: the calls it makes on the signal that is being emitted
  (in order), and whether it finally throws a value. This describes the listeners of a
  signal that is used on its own; the listeners of a store, which may also call the store,
  are described in the section on the store.
\<close>

datatype action = Connect jsval | Disconnect jsval | Clear

type_synonym behaviour = "fid \<Rightarrow> jsval list \<Rightarrow> action list \<times> jsval option"

fun run_action :: "action \<Rightarrow> signal \<Rightarrow> signal" where
  "run_action (Connect v) s = (case Signal_connect v s of Inl e \<Rightarrow> s | Inr (d, s') \<Rightarrow> s')"
| "run_action (Disconnect v) s = snd (Signal_disconnect v s)"
| "run_action Clear s = Signal_clear s"

text \<open>
  What can be observed of an emission: the listener calls, the errors written with
  \<^verbatim>\<open>console.error\<close> (a value that a listener threw, or the \<^verbatim>\<open>TypeError\<close> of a store
  method that a listener called) and, for a store, the channel an emission was made on.
\<close>

datatype event =
    Invoked fid "jsval list"
  | ConsoleError jsval
  | ConsoleTypeError string
  | Emitted string string "jsval list"

text \<open>
  The body of the callback given to \<^verbatim>\<open>forEach\<close>:
  \<^verbatim>\<open>try { listener(...args) } catch (error) { console.error(..., error) }\<close>.
\<close>

definition call_listener :: "behaviour \<Rightarrow> fid \<Rightarrow> jsval list \<Rightarrow> signal \<Rightarrow> signal \<times> event list" where
  "call_listener beh f args s =
     (fold run_action (fst (beh f args)) s,
      Invoked f args # (case snd (beh f args) of None \<Rightarrow> [] | Some err \<Rightarrow> [ConsoleError err]))"

text \<open>
  \<^verbatim>\<open>Set.prototype.forEach\<close>: the index runs over the entry list, whose length is read
  again after every callback; an empty entry is skipped. The loop need not end (a listener
  may keep adding entries), so the result is an option and \<open>None\<close> means that the call
  does not return.
\<close>

partial_function (option) forEach ::
  "behaviour \<Rightarrow> jsval list \<Rightarrow> nat \<Rightarrow> signal \<Rightarrow> event list \<Rightarrow> (signal \<times> event list) option" where
  "forEach beh args index s log =
     (if index < length (listeners s) then
        (case listeners s ! index of
           None \<Rightarrow> forEach beh args (Suc index) s log
         | Some f \<Rightarrow>
             forEach beh args (Suc index) (fst (call_listener beh f args s))
               (log @ snd (call_listener beh f args s)))
      else Some (s, log))"

declare forEach.simps [code]

definition Signal_emit :: "behaviour \<Rightarrow> jsval list \<Rightarrow> signal \<Rightarrow> (signal \<times> event list) option" where
  "Signal_emit beh args s = forEach beh args 0 s []"

text \<open>The listener calls of a log, in order, and the values reported as errors.\<close>

fun invocations :: "event list \<Rightarrow> (fid \<times> jsval list) list" where
  "invocations [] = []"
| "invocations (Invoked f args # evs) = (f, args) # invocations evs"
| "invocations (e # evs) = invocations evs"

fun reported :: "event list \<Rightarrow> jsval list" where
  "reported [] = []"
| "reported (ConsoleError v # evs) = v # reported evs"
| "reported (e # evs) = reported evs"

section \<open>SignalGroup\<close>

text \<open>\<^verbatim>\<open>this.signals = new Map()\<close>, from signal names to signals.\<close>

record signal_group =
  signals :: "(string \<times> signal) list"

definition SignalGroup_new :: signal_group where
  "SignalGroup_new = \<lparr>signals = []\<rparr>"

definition SignalGroup_has :: "string \<Rightarrow> signal_group \<Rightarrow> bool" where
  "SignalGroup_has name g = (map_of (signals g) name \<noteq> None)"

definition SignalGroup_get :: "string \<Rightarrow> signal_group \<Rightarrow> signal \<times> signal_group" where
  "SignalGroup_get name g =
     (case map_of (signals g) name of
        None \<Rightarrow> (Signal_new, g\<lparr>signals := AList.update name Signal_new (signals g)\<rparr>)
      | Some sg \<Rightarrow> (sg, g))"

text \<open>
  \<^verbatim>\<open>remove\<close> and \<^verbatim>\<open>clear\<close> first clear the listeners of the signals they drop; the
  group keeps no trace of a dropped signal.
\<close>

definition SignalGroup_remove :: "string \<Rightarrow> signal_group \<Rightarrow> bool \<times> signal_group" where
  "SignalGroup_remove name g =
     (if SignalGroup_has name g then (True, g\<lparr>signals := AList.delete name (signals g)\<rparr>)
      else (False, g))"

definition SignalGroup_clear :: "signal_group \<Rightarrow> signal_group" where
  "SignalGroup_clear g = g\<lparr>signals := []\<rparr>"

text \<open>Storing a signal back after it was changed through the reference the group holds.\<close>

definition put_signal :: "string \<Rightarrow> signal \<Rightarrow> signal_group \<Rightarrow> signal_group" where
  "put_signal name sg g = g\<lparr>signals := AList.update name sg (signals g)\<rparr>"

section \<open>Store\<close>

text \<open>
  \<^verbatim>\<open>this.signals = {}\<close> is a plain object used as a dictionary from group names to
  groups. Reading \<^verbatim>\<open>this.signals[name]\<close> therefore also finds what the object inherits:
  the members of \<^verbatim>\<open>Object.prototype\<close>, and, once an assignment to the key
  \<^verbatim>\<open>__proto__\<close> has replaced the prototype by a \<^verbatim>\<open>SignalGroup\<close>, that group (under
  \<^verbatim>\<open>__proto__\<close>), its \<^verbatim>\<open>signals\<close> map and its methods. The record keeps the own
  properties and the group installed as prototype, if any.
\<close>

record signals_obj =
  own :: "(string \<times> signal_group) list"
  proto :: "signal_group option"

record store =
  state :: jsval
  store_signals :: signals_obj

definition object_prototype_names :: "string list" where
  "object_prototype_names =
     [''constructor'', ''__defineGetter__'', ''__defineSetter__'', ''hasOwnProperty'',
      ''__lookupGetter__'', ''__lookupSetter__'', ''isPrototypeOf'',
      ''propertyIsEnumerable'', ''toString'', ''valueOf'', ''__proto__'',
      ''toLocaleString'']"

definition signal_group_names :: "string list" where
  "signal_group_names = [''signals'', ''get'', ''has'', ''remove'', ''clear'']"

text \<open>
  What \<^verbatim>\<open>this.signals[name]\<close> evaluates to: \<^verbatim>\<open>undefined\<close> (\<open>Absent\<close>), a group (an
  own property, or the prototype group), the \<^verbatim>\<open>Map\<close> of the prototype group, or some
  other inherited value (\<open>Foreign\<close>: a built-in method or \<^verbatim>\<open>Object.prototype\<close> itself,
  all of them truthy and none with a method \<^verbatim>\<open>get\<close>).
\<close>

datatype holder = Own string | Proto

datatype slot = Absent | Group holder | ProtoMap | Foreign

definition signals_read :: "signals_obj \<Rightarrow> string \<Rightarrow> slot" where
  "signals_read so name =
     (case map_of (own so) name of
        Some g \<Rightarrow> Group (Own name)
      | None \<Rightarrow>
          (case proto so of
             None \<Rightarrow> if name \<in> set object_prototype_names then Foreign else Absent
           | Some pg \<Rightarrow>
               if name = ''__proto__'' then Group Proto
               else if name = ''signals'' then ProtoMap
               else if name \<in> set (signal_group_names @ object_prototype_names) then Foreign
               else Absent))"

text \<open>
  The assignment \<^verbatim>\<open>this.signals[name] = group\<close>: it creates or overwrites an own
  property, except for \<^verbatim>\<open>__proto__\<close>, where it replaces the prototype.
\<close>

definition signals_write :: "signals_obj \<Rightarrow> string \<Rightarrow> signal_group \<Rightarrow> signals_obj" where
  "signals_write so name g =
     (if name = ''__proto__'' then so\<lparr>proto := Some g\<rparr>
      else so\<lparr>own := AList.update name g (own so)\<rparr>)"

fun group_at :: "signals_obj \<Rightarrow> holder \<Rightarrow> signal_group" where
  "group_at so (Own name) = (case map_of (own so) name of Some g \<Rightarrow> g | None \<Rightarrow> SignalGroup_new)"
| "group_at so Proto = (case proto so of Some g \<Rightarrow> g | None \<Rightarrow> SignalGroup_new)"

fun put_group :: "signals_obj \<Rightarrow> holder \<Rightarrow> signal_group \<Rightarrow> signals_obj" where
  "put_group so (Own name) g = so\<lparr>own := AList.update name g (own so)\<rparr>"
| "put_group so Proto g = so\<lparr>proto := Some g\<rparr>"

text \<open>
  The expression \<^verbatim>\<open>this.signals[signalGroup].get(signalName)\<close>: on a group it returns
  the named signal, creating it when missing; on the prototype group's map it is
  \<^verbatim>\<open>Map.prototype.get\<close>, which creates nothing, and the method call that follows on its
  \<^verbatim>\<open>undefined\<close> result fails; on anything else there is no function \<^verbatim>\<open>get\<close> to call.
  The result names the group that holds the signal.
\<close>

definition channel :: "signals_obj \<Rightarrow> string \<Rightarrow> string \<Rightarrow> exn + holder \<times> signal \<times> signals_obj" where
  "channel so signalGroup signalName =
     (case signals_read so signalGroup of
        Group hl \<Rightarrow>
          (case SignalGroup_get signalName (group_at so hl) of
             (sg, g) \<Rightarrow> Inr (hl, sg, put_group so hl g))
      | ProtoMap \<Rightarrow>
          (case map_of (signals (group_at so Proto)) signalName of
             Some sg \<Rightarrow> Inr (Proto, sg, so)
           | None \<Rightarrow> Inl (TypeError ''Cannot read properties of undefined''))
      | Foreign \<Rightarrow> Inl (TypeError ''this.signals[signalGroup].get is not a function'')
      | Absent \<Rightarrow> Inl (TypeError ''Cannot read properties of undefined''))"

text \<open>The signal a group holds under a name, read and written through the signals object.\<close>

definition signal_at :: "signals_obj \<Rightarrow> holder \<Rightarrow> string \<Rightarrow> signal" where
  "signal_at so hl name =
     (case map_of (signals (group_at so hl)) name of Some sg \<Rightarrow> sg | None \<Rightarrow> Signal_new)"

definition put_at :: "signals_obj \<Rightarrow> holder \<Rightarrow> string \<Rightarrow> signal \<Rightarrow> signals_obj" where
  "put_at so hl name sg = put_group so hl (put_signal name sg (group_at so hl))"

subsection \<open>Emission inside a store\<close>

text \<open>
  A listener that is connected through a store may call that store while it runs: the
  new state reaches it as an argument and the store is within its reach. It is described
  by the steps it takes, in order, and by whether it finally throws a value. A step is a
  call on the signal that is being emitted (\<open>Local\<close>), or a call of \<^verbatim>\<open>update\<close>,
  \<^verbatim>\<open>reset\<close> or \<^verbatim>\<open>connect\<close> on the store, or an emission on one of its channels. A
  store method that throws inside a listener ends that listener; the error is caught by
  the emission that called the listener.
\<close>

datatype step =
    Local action
  | CallUpdate jsval string string
  | CallReset jsval
  | CallConnect string string jsval
  | CallEmit string string "jsval list"

type_synonym store_behaviour = "fid \<Rightarrow> jsval list \<Rightarrow> step list \<times> jsval option"

text \<open>
  The listeners of a store's channel run on the whole heap and store. A \<open>runner\<close> tells
  what one listener call of an emission does (the callback given to \<^verbatim>\<open>forEach\<close>), for
  the signal held by the given group under the given name and the emitted arguments; it
  gives \<open>None\<close> when that call does not return.
\<close>

type_synonym runner =
  "holder \<Rightarrow> string \<Rightarrow> jsval list \<Rightarrow> fid \<Rightarrow> heap \<times> store \<Rightarrow> ((heap \<times> store) \<times> event list) option"

definition entries_at :: "holder \<Rightarrow> string \<Rightarrow> heap \<times> store \<Rightarrow> set_data" where
  "entries_at hl name w = listeners (signal_at (store_signals (snd w)) hl name)"

text \<open>
  \<^verbatim>\<open>Set.prototype.forEach\<close> once more, for a listener set that is part of a larger
  state \<open>w\<close> which the callback may change as a whole: the entries are read from the
  current state at every step, and the callback may fail to return. With the signal
  itself as state it is the loop \<open>forEach\<close> above (lemma \<open>forEach_in_signal\<close>).
\<close>

partial_function (option) forEach_in ::
  "('w \<Rightarrow> set_data) \<Rightarrow> (fid \<Rightarrow> 'w \<Rightarrow> ('w \<times> event list) option) \<Rightarrow> nat \<Rightarrow> 'w \<Rightarrow> event list
     \<Rightarrow> ('w \<times> event list) option" where
  "forEach_in entries callback index w log =
     (if index < length (entries w) then
        (case entries w ! index of
           None \<Rightarrow> forEach_in entries callback (Suc index) w log
         | Some f \<Rightarrow>
             (case callback f w of
                None \<Rightarrow> None
              | Some (w', evs) \<Rightarrow> forEach_in entries callback (Suc index) w' (log @ evs)))
      else Some (w, log))"

declare forEach_in.simps [code]

text \<open>
  The result of a store method: what it throws or returns, the events it caused, and the
  heap and store it leaves behind (also when it throws).
\<close>

type_synonym 'a result = "(exn + 'a) \<times> event list \<times> heap \<times> store"

text \<open>\<^verbatim>\<open>this.signals[signalGroup].get(signalName).emit(...args)\<close>.\<close>

definition emit_on ::
  "runner \<Rightarrow> string \<Rightarrow> string \<Rightarrow> jsval list \<Rightarrow> heap \<Rightarrow> store \<Rightarrow> unit result option" where
  "emit_on run signalGroup signalName args h s =
     (case channel (store_signals s) signalGroup signalName of
        Inl e \<Rightarrow> Some (Inl e, [], h, s)
      | Inr (hl, sg, so1) \<Rightarrow>
          (case forEach_in (entries_at hl signalName) (run hl signalName args) 0
                  (h, s\<lparr>store_signals := so1\<rparr>) [] of
             None \<Rightarrow> None
           | Some ((h', s'), evs) \<Rightarrow>
               Some (Inr (), Emitted signalGroup signalName args # evs, h', s')))"

subsection \<open>Construction\<close>

text \<open>
  The second argument of the constructor, by the cases the constructor tells apart:
  omitted or \<^verbatim>\<open>undefined\<close>, \<^verbatim>\<open>null\<close>, an array of names, another object (given by its
  \<^verbatim>\<open>Object.keys\<close>), or a value that is neither (a number, string, boolean or function).
\<close>

datatype group_spec = Omitted | NullSpec | NameList "string list" | NameKeys "string list" | OtherSpec

fun isArray :: "group_spec \<Rightarrow> bool" where
  "isArray (NameList ns) = True"
| "isArray sp = False"

text \<open>\<^verbatim>\<open>typeof signalGroups === "object"\<close>.\<close>

fun is_object :: "group_spec \<Rightarrow> bool" where
  "is_object NullSpec = True"
| "is_object (NameList ns) = True"
| "is_object (NameKeys ks) = True"
| "is_object sp = False"

fun elements :: "group_spec \<Rightarrow> string list" where
  "elements (NameList ns) = ns"
| "elements sp = []"

fun object_keys :: "group_spec \<Rightarrow> exn + string list" where
  "object_keys (NameKeys ks) = Inr ks"
| "object_keys (NameList ns) = Inr (map string_of_nat [0..<length ns])"
| "object_keys sp = Inl (TypeError ''Cannot convert undefined or null to object'')"

definition new_groups :: "string list \<Rightarrow> signals_obj \<Rightarrow> signals_obj" where
  "new_groups names so = fold (\<lambda>groupName so'. signals_write so' groupName SignalGroup_new) names so"

text \<open>
  \<^verbatim>\<open>constructor(initialState = {}, signalGroups = ["state"])\<close>. The default of
  \<^verbatim>\<open>initialState\<close> needs no case of its own: spreading \<^verbatim>\<open>undefined\<close> and spreading
  \<^verbatim>\<open>{}\<close> give the same empty object.
\<close>

definition Store_new :: "jsval \<Rightarrow> group_spec \<Rightarrow> heap \<Rightarrow> exn + heap \<times> store" where
  "Store_new initialState signalGroups h =
     (let sp = (if signalGroups = Omitted then NameList [''state''] else signalGroups);
          (h1, st) = object_literal h [initialState];
          so0 = \<lparr>own = [], proto = None\<rparr>
      in case (if isArray sp then Inr (new_groups (elements sp) so0)
               else if is_object sp then
                 (case object_keys sp of Inl e \<Rightarrow> Inl e | Inr ks \<Rightarrow> Inr (new_groups ks so0))
               else Inr so0) of
           Inl e \<Rightarrow> Inl e
         | Inr so1 \<Rightarrow>
             Inr (h1, \<lparr>state = st,
                       store_signals =
                         (if signals_read so1 ''state'' = Absent
                          then signals_write so1 ''state'' SignalGroup_new else so1)\<rparr>))"

definition createStore :: "jsval \<Rightarrow> group_spec \<Rightarrow> heap \<Rightarrow> exn + heap \<times> store" where
  "createStore initialState signalGroups h = Store_new initialState signalGroups h"

subsection \<open>update, select, connect, reset\<close>

text \<open>
  A function passed as updater or selector is code of the caller: \<open>call f h v\<close> is what
  calling \<open>f\<close> on \<open>v\<close> in heap \<open>h\<close> does, either throwing or returning a value and
  a heap.
\<close>

type_synonym callfn = "fid \<Rightarrow> heap \<Rightarrow> jsval \<Rightarrow> exn + heap \<times> jsval"

text \<open>
  The branch of \<^verbatim>\<open>update\<close> that applies the updater to the current state, either
  throwing or giving the heap and the new state: a function is called on the state, an
  updater with \<^verbatim>\<open>typeof updater === "object"\<close> is merged over it in a new object,
  anything else is a \<^verbatim>\<open>TypeError\<close>.
\<close>

definition apply_updater :: "callfn \<Rightarrow> jsval \<Rightarrow> heap \<Rightarrow> jsval \<Rightarrow> exn + heap \<times> jsval" where
  "apply_updater call updater h st =
     (if typeof updater = ''function'' then
        (case updater of
           Fn f \<Rightarrow> call f h st
         | _ \<Rightarrow> Inl (TypeError ''updater is not a function''))
      else if typeof updater = ''object'' then Inr (object_literal h [st, updater])
      else Inl (TypeError ''Updater must be an object or a function''))"

text \<open>
  \<^verbatim>\<open>update(updater, signalGroup = "state", signalName = "changed")\<close>. The snapshot
  \<^verbatim>\<open>oldState\<close> is taken first and has the properties the state has in the heap in which
  \<^verbatim>\<open>update\<close> starts. It is a local variable, which the updater cannot reach; so the
  updater runs in the heap without it, and the snapshot is entered into the heap that the
  updater leaves. The method returns \<^verbatim>\<open>this.state\<close> as it is after the emission.
\<close>

definition Store_update ::
  "runner \<Rightarrow> callfn \<Rightarrow> jsval \<Rightarrow> string \<Rightarrow> string \<Rightarrow> heap \<Rightarrow> store \<Rightarrow> jsval result option" where
  "Store_update run call updater signalGroup signalName h s =
     (let oldProps = literal_props h [state s]
      in case apply_updater call updater h (state s) of
           Inl e \<Rightarrow> Some (Inl e, [], h @ [oldProps], s)
         | Inr (h2, newState) \<Rightarrow>
             (let (h3, oldState) = alloc h2 oldProps;
                  s1 = s\<lparr>state := newState\<rparr>
              in if signals_read (store_signals s1) signalGroup \<noteq> Absent then
                   (case emit_on run signalGroup signalName [newState, oldState] h3 s1 of
                      None \<Rightarrow> None
                    | Some (Inl e, evs, h4, s4) \<Rightarrow> Some (Inl e, evs, h4, s4)
                    | Some (Inr u, evs, h4, s4) \<Rightarrow> Some (Inr (state s4), evs, h4, s4))
                 else Some (Inr (state s1), [], h3, s1)))"

text \<open>
  \<^verbatim>\<open>selector.split(".")\<close> and the reduction along the path:
  \<^verbatim>\<open>(obj, key) => (obj && obj[key] !== undefined ? obj[key] : undefined)\<close>.
\<close>

fun split_dot :: "string \<Rightarrow> string list" where
  "split_dot [] = [[]]"
| "split_dot (c # cs) =
     (if c = CHR ''.'' then [] # split_dot cs
      else (c # hd (split_dot cs)) # tl (split_dot cs))"

definition path_step :: "heap \<Rightarrow> jsval \<Rightarrow> string \<Rightarrow> jsval" where
  "path_step h obj key =
     (if truthy obj \<and> get_prop h obj key \<noteq> Undefined then get_prop h obj key else Undefined)"

definition select_path :: "heap \<Rightarrow> jsval \<Rightarrow> string \<Rightarrow> jsval" where
  "select_path h st selector = foldl (path_step h) st (split_dot selector)"

text \<open>
  The selector, by the cases \<^verbatim>\<open>select\<close> tells apart: a string, an array (of strings,
  as documented: "array of paths"), a function, or anything else.
\<close>

datatype selector = SelString string | SelArray "string list" | SelFunction fid | SelOther

text \<open>
  \<^verbatim>\<open>result[key] = value\<close> on the object that \<^verbatim>\<open>select\<close> builds: an own property is set,
  except for the key \<^verbatim>\<open>__proto__\<close>, which sets no own property.
\<close>

definition set_prop :: "string \<Rightarrow> jsval \<Rightarrow> props \<Rightarrow> props" where
  "set_prop key v ps = (if key = ''__proto__'' then ps else AList.update key v ps)"

text \<open>
  In the array case each entry is handed to \<^verbatim>\<open>this.select(key)\<close> again; an entry is a
  string, so the recursive call takes the first case.
\<close>

fun Store_select :: "callfn \<Rightarrow> selector \<Rightarrow> heap \<Rightarrow> store \<Rightarrow> exn + heap \<times> jsval" where
  "Store_select call (SelString selector) h s = Inr (h, select_path h (state s) selector)"
| "Store_select call (SelArray selector) h s =
     Inr (alloc h (fold (\<lambda>key result. set_prop key (select_path h (state s) key) result) selector []))"
| "Store_select call (SelFunction f) h s = call f h (state s)"
| "Store_select call SelOther h s = Inr (h, state s)"

definition Store_connect :: "string \<Rightarrow> string \<Rightarrow> jsval \<Rightarrow> heap \<Rightarrow> store \<Rightarrow> handle result" where
  "Store_connect signalGroup signalName listener h s =
     (let so1 = (if signals_read (store_signals s) signalGroup = Absent
                 then signals_write (store_signals s) signalGroup SignalGroup_new
                 else store_signals s)
      in case channel so1 signalGroup signalName of
           Inl e \<Rightarrow> (Inl e, [], h, s\<lparr>store_signals := so1\<rparr>)
         | Inr (hl, sg, so2) \<Rightarrow>
             (case Signal_connect listener sg of
                Inl e \<Rightarrow> (Inl e, [], h, s\<lparr>store_signals := so2\<rparr>)
              | Inr (d, sg') \<Rightarrow>
                  (Inr d, [], h,
                   s\<lparr>store_signals := put_group so2 hl (put_signal signalName sg' (group_at so2 hl))\<rparr>)))"

text \<open>
  \<^verbatim>\<open>reset(initialState = {})\<close>; as in the constructor the default needs no case of its
  own. The method returns \<^verbatim>\<open>this.state\<close> as it is after the emission.
\<close>

definition Store_reset :: "runner \<Rightarrow> jsval \<Rightarrow> heap \<Rightarrow> store \<Rightarrow> jsval result option" where
  "Store_reset run initialState h s =
     (let (h1, oldState) = object_literal h [state s];
          (h2, newState) = object_literal h1 [initialState];
          s1 = s\<lparr>state := newState\<rparr>
      in if signals_read (store_signals s1) ''state'' \<noteq> Absent then
           (case emit_on run ''state'' ''reset'' [newState, oldState] h2 s1 of
              None \<Rightarrow> None
            | Some (Inl e, evs, h3, s3) \<Rightarrow> Some (Inl e, evs, h3, s3)
            | Some (Inr u, evs, h3, s3) \<Rightarrow> Some (Inr (state s3), evs, h3, s3))
         else Some (Inr (state s1), [], h2, s1))"

subsection \<open>Listeners that call the store\<close>

text \<open>
  One step of a listener, on the signal held by group \<open>hl\<close> under \<open>name\<close>: the new
  heap and store, the events of the emissions it caused, and the error a store method
  threw, if any. The listener calls of those emissions are made by \<open>run\<close>.
\<close>

fun thrown_by :: "exn + 'a \<Rightarrow> exn option" where
  "thrown_by (Inl e) = Some e"
| "thrown_by (Inr v) = None"

fun run_step ::
  "runner \<Rightarrow> callfn \<Rightarrow> holder \<Rightarrow> string \<Rightarrow> step \<Rightarrow> heap \<times> store
     \<Rightarrow> ((heap \<times> store) \<times> event list \<times> exn option) option" where
  "run_step run call hl name (Local a) (h, s) =
     Some ((h, s\<lparr>store_signals :=
                   put_at (store_signals s) hl name
                     (run_action a (signal_at (store_signals s) hl name))\<rparr>), [], None)"
| "run_step run call hl name (CallUpdate updater signalGroup signalName) (h, s) =
     (case Store_update run call updater signalGroup signalName h s of
        None \<Rightarrow> None
      | Some (r, evs, h', s') \<Rightarrow> Some ((h', s'), evs, thrown_by r))"
| "run_step run call hl name (CallReset initialState) (h, s) =
     (case Store_reset run initialState h s of
        None \<Rightarrow> None
      | Some (r, evs, h', s') \<Rightarrow> Some ((h', s'), evs, thrown_by r))"
| "run_step run call hl name (CallConnect signalGroup signalName listener) (h, s) =
     (case Store_connect signalGroup signalName listener h s of
        (r, evs, h', s') \<Rightarrow> Some ((h', s'), evs, thrown_by r))"
| "run_step run call hl name (CallEmit signalGroup signalName args) (h, s) =
     (case emit_on run signalGroup signalName args h s of
        None \<Rightarrow> None
      | Some (r, evs, h', s') \<Rightarrow> Some ((h', s'), evs, thrown_by r))"

text \<open>The steps in order, up to the first one that throws.\<close>

fun run_steps ::
  "runner \<Rightarrow> callfn \<Rightarrow> holder \<Rightarrow> string \<Rightarrow> step list \<Rightarrow> heap \<times> store
     \<Rightarrow> ((heap \<times> store) \<times> event list \<times> exn option) option" where
  "run_steps run call hl name [] w = Some (w, [], None)"
| "run_steps run call hl name (st # sts) w =
     (case run_step run call hl name st w of
        None \<Rightarrow> None
      | Some (w1, evs, Some e) \<Rightarrow> Some (w1, evs, Some e)
      | Some (w1, evs, None) \<Rightarrow>
          (case run_steps run call hl name sts w1 of
             None \<Rightarrow> None
           | Some (w2, evs2, r) \<Rightarrow> Some (w2, evs @ evs2, r)))"

text \<open>What \<^verbatim>\<open>console.error\<close> is given by the \<^verbatim>\<open>catch\<close> clause of \<^verbatim>\<open>emit\<close>.\<close>

fun console_error :: "exn \<Rightarrow> event" where
  "console_error (TypeError msg) = ConsoleTypeError msg"
| "console_error (Thrown v) = ConsoleError v"

text \<open>
  The callback of \<^verbatim>\<open>emit\<close> for the listeners of a store:
  \<^verbatim>\<open>try { listener(...args) } catch (error) { console.error(..., error) }\<close>, where the
  listener may call the store, whose emissions call listeners in turn. The code puts no
  bound on this nesting. Here the levels are counted: a listener that is run at
  \<open>Suc depth\<close> has the listeners of its own emissions run at \<open>depth\<close>, and at 0 no
  listener runs: \<open>None\<close> stands for a call that does not return or that nests deeper
  than the given number of levels. A result obtained at some depth is the result at
  every greater depth (lemma \<open>run_listener_deeper\<close>).
\<close>

primrec run_listener :: "store_behaviour \<Rightarrow> callfn \<Rightarrow> nat \<Rightarrow> runner" where
  "run_listener beh call 0 = (\<lambda>hl name args f w. None)"
| "run_listener beh call (Suc depth) =
     (\<lambda>hl name args f w.
        case run_steps (run_listener beh call depth) call hl name (fst (beh f args)) w of
          None \<Rightarrow> None
        | Some (w', evs, failed) \<Rightarrow>
            Some (w', Invoked f args # evs @
                        (case failed of
                           Some e \<Rightarrow> [console_error e]
                         | None \<Rightarrow> (case snd (beh f args) of
                                      None \<Rightarrow> []
                                    | Some err \<Rightarrow> [ConsoleError err]))))"

section \<open>Notions used in the statements\<close>

text \<open>
  The events one listener call leaves in the log: the call itself and, when the listener
  throws, the error report that follows it.
\<close>

definition events_of :: "behaviour \<Rightarrow> jsval list \<Rightarrow> fid \<Rightarrow> event list" where
  "events_of beh args f =
     Invoked f args # (case snd (beh f args) of None \<Rightarrow> [] | Some err \<Rightarrow> [ConsoleError err])"

text \<open>The actions that were run during an emission: those of the listeners it called.\<close>

definition executed :: "behaviour \<Rightarrow> event list \<Rightarrow> action list" where
  "executed beh evs = concat (map (\<lambda>(f, args). fst (beh f args)) (invocations evs))"



text \<open>The inverse of \<^verbatim>\<open>split(".")\<close>: the pieces joined by dots.\<close>

fun join_dot :: "string list \<Rightarrow> string" where
  "join_dot [] = []"
| "join_dot [w] = w"
| "join_dot (w # ws) = w @ CHR ''.'' # join_dot ws"

text \<open>A group is an own property of the signals object.\<close>

definition has_group :: "signals_obj \<Rightarrow> string \<Rightarrow> bool" where
  "has_group so name = (map_of (own so) name \<noteq> None)"



text \<open>
  Listeners that do not call back into the store: all their steps are calls on the signal
  that is being emitted.
\<close>

fun is_local :: "step \<Rightarrow> bool" where
  "is_local (Local a) = True"
| "is_local st = False"

definition local_only :: "store_behaviour \<Rightarrow> bool" where
  "local_only beh = (\<forall>f xs. list_all is_local (fst (beh f xs)))"

text \<open>
  What such listeners do on the signal: the same listeners, described as listeners of a
  signal.
\<close>

fun actions_of :: "step list \<Rightarrow> action list" where
  "actions_of [] = []"
| "actions_of (Local a # sts) = a # actions_of sts"
| "actions_of (st # sts) = actions_of sts"

definition local_part :: "store_behaviour \<Rightarrow> behaviour" where
  "local_part beh f args = (actions_of (fst (beh f args)), snd (beh f args))"


section \<open>Example listeners\<close>

text \<open>
  Some concrete listeners, given by the function reference that is called: none of them
  does anything (\<open>idle\<close>); listener 1 throws (\<open>thrower\<close>); listener 1 connects a new
  listener 3 (\<open>late_joiner\<close>); listener 1 disconnects listener 2 (\<open>remover\<close>);
  listener 1 disconnects itself (\<open>once\<close>); every listener disconnects and connects
  itself again (\<open>restless\<close>). The signal
  \<open>two_listeners\<close> has had listeners 1 and 2 connected, and one other listener connected
  and disconnected between them; \<open>three_listeners\<close> has listeners 1, 2 and 3.
\<close>

definition idle :: behaviour where
  "idle f args = ([], None)"


definition late_joiner :: behaviour where
  "late_joiner f args = (if f = 1 then ([Connect (Fn 3)], None) else ([], None))"

definition remover :: behaviour where
  "remover f args = (if f = 1 then ([Disconnect (Fn 2)], None) else ([], None))"

definition once :: behaviour where
  "once f args = (if f = 1 then ([Disconnect (Fn 1)], None) else ([], None))"

definition restless :: behaviour where
  "restless f args = ([Disconnect (Fn f), Connect (Fn f)], None)"

definition two_listeners :: signal where
  "two_listeners = \<lparr>listeners = [Some 1, None, Some 2]\<rparr>"

definition three_listeners :: signal where
  "three_listeners = \<lparr>listeners = [Some 1, Some 2, Some 3]\<rparr>"

section \<open>Example stores\<close>

text \<open>
  An updater or selector function that returns the state it is given
  (\<^verbatim>\<open>s => s\<close>), and some small stores. In \<open>base_heap\<close> object 0 is
  \<^verbatim>\<open>{a: 0, b: 2}\<close> and object 1 is \<^verbatim>\<open>{a: 1}\<close>; \<open>counter_store\<close> is the store that
  \<^verbatim>\<open>new Store({a: 0, b: 2})\<close> builds there, \<open>updated_heap\<close> the heap after
  \<^verbatim>\<open>update({a: 1})\<close>, and \<open>reset_heap\<close> the heap after \<^verbatim>\<open>reset({a: 1})\<close>. In
  \<open>user_heap\<close> the state is \<^verbatim>\<open>{user: {name: "Alice"}}\<close>. The store
  \<open>watched_store\<close> is \<open>counter_store\<close> after
  \<^verbatim>\<open>connect("state", "changed", listener1)\<close>, and \<open>listening_store\<close> is
  \<open>counter_store\<close> after \<^verbatim>\<open>connect("state", "reset", listener1)\<close>.

  Store listeners: none of them does anything (\<open>onlooker\<close>); listener 1 calls
  \<^verbatim>\<open>update({a: 1})\<close> (\<open>meddler\<close>); listener 1 calls
  \<^verbatim>\<open>update(() => original, "none", "changed")\<close>, where \<^verbatim>\<open>original\<close> is the state
  object the store was built with, reference 2 (\<open>restorer\<close>, with the function 7 of
  \<open>returns_original\<close>).
\<close>

definition returns_argument :: callfn where
  "returns_argument f h v = Inr (h, v)"

definition base_heap :: heap where
  "base_heap = [[(''a'', Num 0), (''b'', Num 2)], [(''a'', Num 1)]]"

definition counter_heap :: heap where
  "counter_heap = base_heap @ [[(''a'', Num 0), (''b'', Num 2)]]"

definition counter_store :: store where
  "counter_store = \<lparr>state = Ref 2, store_signals = \<lparr>own = [(''state'', SignalGroup_new)], proto = None\<rparr>\<rparr>"

definition updated_heap :: heap where
  "updated_heap = counter_heap @ [[(''a'', Num 1), (''b'', Num 2)], [(''a'', Num 0), (''b'', Num 2)]]"


definition watched_store :: store where
  "watched_store =
     \<lparr>state = Ref 2,
      store_signals =
        \<lparr>own = [(''state'', \<lparr>signals = [(''changed'', \<lparr>listeners = [Some 1]\<rparr>)]\<rparr>)],
         proto = None\<rparr>\<rparr>"


definition onlooker :: store_behaviour where
  "onlooker f args = ([], None)"

definition meddler :: store_behaviour where
  "meddler f args =
     (if f = 1 then ([CallUpdate (Ref 1) ''state'' ''changed''], None) else ([], None))"

definition restorer :: store_behaviour where
  "restorer f args =
     (if f = 1 then ([CallUpdate (Fn 7) ''none'' ''changed''], None) else ([], None))"

definition returns_original :: callfn where
  "returns_original f h v = (if f = 7 then Inr (h, Ref 2) else Inr (h, v))"

definition user_heap :: heap where
  "user_heap = [[(''user'', Ref 1)], [(''name'', Str ''Alice'')]]"

definition user_store :: store where
  "user_store = \<lparr>state = Ref 0, store_signals = \<lparr>own = [(''state'', SignalGroup_new)], proto = None\<rparr>\<rparr>"

section \<open>Properties of the listener set\<close>

lemma set_values_Nil [simp]: "set_values [] = []"
  by (simp add: set_values_def map_filter_simps)

lemma set_values_Cons_None [simp]: "set_values (None # es) = set_values es"
  by (simp add: set_values_def map_filter_simps)

lemma set_values_Cons_Some [simp]: "set_values (Some f # es) = f # set_values es"
  by (simp add: set_values_def map_filter_simps)

lemma set_values_append [simp]: "set_values (es @ es') = set_values es @ set_values es'"
  by (simp add: set_values_def map_filter_def)

lemma set_set_values: "set (set_values es) = {f. Some f \<in> set es}"
proof (induction es)
  case Nil
  show ?case by simp
next
  case (Cons e es)
  then show ?case by (cases e) auto
qed

lemma set_values_drop:
  "index < length es \<Longrightarrow>
   set_values (drop index es) =
     (case es ! index of None \<Rightarrow> [] | Some f \<Rightarrow> [f]) @ set_values (drop (Suc index) es)"
  by (simp add: Cons_nth_drop_Suc [symmetric] split: option.splits)

lemma snd_call_listener: "snd (call_listener beh f args s) = events_of beh args f"
  by (simp add: call_listener_def events_of_def)

lemma call_listener_quiet: "fst (beh f args) = [] \<Longrightarrow> fst (call_listener beh f args s) = s"
  by (simp add: call_listener_def)

lemma forEach_quiet:
  "\<forall>f \<in> set (set_values (drop index (listeners s))). fst (beh f args) = [] \<Longrightarrow>
   forEach beh args index s log =
     Some (s, log @ concat (map (events_of beh args) (set_values (drop index (listeners s)))))"
proof (induction "length (listeners s) - index" arbitrary: index log)
  case 0
  then have "\<not> index < length (listeners s)" by simp
  then show ?case by (subst forEach.simps) simp
next
  case (Suc n)
  then have lt: "index < length (listeners s)" by simp
  have n: "n = length (listeners s) - Suc index" using Suc.hyps(2) by simp
  have rest: "\<forall>f \<in> set (set_values (drop (Suc index) (listeners s))). fst (beh f args) = []"
    using Suc.prems lt by (simp add: set_values_drop)
  show ?case
  proof (cases "listeners s ! index")
    case None
    with lt Suc.hyps(1) [OF n rest] show ?thesis
      by (subst forEach.simps) (simp add: set_values_drop)
  next
    case (Some f)
    with Suc.prems lt have q: "fst (beh f args) = []" by (simp add: set_values_drop)
    from Some lt Suc.hyps(1) [OF n rest] show ?thesis
      by (subst forEach.simps) (simp add: set_values_drop call_listener_quiet q snd_call_listener)
  qed
qed

lemma invocations_append [simp]: "invocations (xs @ ys) = invocations xs @ invocations ys"
  by (induction xs rule: invocations.induct) auto

lemma reported_append [simp]: "reported (xs @ ys) = reported xs @ reported ys"
  by (induction xs rule: reported.induct) auto

lemma invocations_events_of [simp]: "invocations (events_of beh args f) = [(f, args)]"
  by (simp add: events_of_def split: option.splits)

lemma invocations_concat_events:
  "invocations (concat (map (events_of beh args) fs)) = map (\<lambda>f. (f, args)) fs"
  by (induction fs) auto


lemma set_values_tombstone:
  "set_values (map (\<lambda>e. if e = Some g then None else e) es) = filter (\<lambda>f. f \<noteq> g) (set_values es)"
proof (induction es)
  case Nil
  show ?case by simp
next
  case (Cons e es)
  then show ?case by (cases e) auto
qed

lemma set_values_cleared: "set_values (map (\<lambda>e. None) es) = []"
  by (induction es) auto

lemma run_connect_fn: "listeners (run_action (Connect (Fn g)) s) = set_add (listeners s) g"
  by (simp add: Signal_connect_def)

lemma run_connect_other: "\<forall>g. v \<noteq> Fn g \<Longrightarrow> run_action (Connect v) s = s"
  by (cases v) (simp_all add: Signal_connect_def)

lemma run_disconnect_fn:
  "listeners (run_action (Disconnect (Fn g)) s) =
     map (\<lambda>e. if e = Some g then None else e) (listeners s)"
  by (simp add: Signal_disconnect_def set_delete_def)

lemma run_disconnect_other: "\<forall>g. v \<noteq> Fn g \<Longrightarrow> run_action (Disconnect v) s = s"
  by (cases v) (simp_all add: Signal_disconnect_def)

lemma run_clear: "listeners (run_action Clear s) = map (\<lambda>e. None) (listeners s)"
  by (simp add: Signal_clear_def set_clear_def)

lemmas run_action_listeners =
  run_connect_fn run_connect_other run_disconnect_fn run_disconnect_other run_clear

lemma run_action_length: "length (listeners s) \<le> length (listeners (run_action a s))"
proof (cases a)
  case (Connect v)
  then show ?thesis
    by (cases v) (simp_all add: run_action_listeners set_add_def del: run_action.simps)
next
  case (Disconnect v)
  then show ?thesis
    by (cases v) (simp_all add: run_action_listeners del: run_action.simps)
next
  case Clear
  then show ?thesis by (simp add: run_action_listeners del: run_action.simps)
qed

lemma run_action_set_ok:
  assumes "set_ok (listeners s)"
  shows "set_ok (listeners (run_action a s))"
proof (cases a)
  case (Connect v)
  with assms show ?thesis
    by (cases v)
       (auto simp: run_action_listeners set_add_def set_ok_def set_set_values
             simp del: run_action.simps)
next
  case (Disconnect v)
  with assms show ?thesis
    by (cases v)
       (simp_all add: run_action_listeners set_ok_def set_values_tombstone del: run_action.simps)
next
  case Clear
  then show ?thesis
    by (simp add: run_action_listeners set_ok_def set_values_cleared del: run_action.simps)
qed



lemma fold_run_action_length:
  "length (listeners s) \<le> length (listeners (fold run_action acts s))"
proof (induction acts arbitrary: s)
  case Nil
  show ?case by simp
next
  case (Cons a acts)
  have "length (listeners s) \<le> length (listeners (run_action a s))" by (rule run_action_length)
  also have "\<dots> \<le> length (listeners (fold run_action acts (run_action a s)))" by (rule Cons.IH)
  finally show ?case by simp
qed

lemma fold_run_action_set_ok:
  "set_ok (listeners s) \<Longrightarrow> set_ok (listeners (fold run_action acts s))"
  by (induction acts arbitrary: s) (simp_all add: run_action_set_ok)



section \<open>Properties of the emission loop\<close>

lemma executed_append [simp]: "executed beh (xs @ ys) = executed beh xs @ executed beh ys"
  by (simp add: executed_def)

lemma executed_events_of [simp]: "executed beh (events_of beh args f) = fst (beh f args)"
  by (simp add: executed_def)



lemma forEach_shape_aux:
  assumes "forEach beh args index s log = Some y"
  shows "\<exists>new. snd y = log @ new \<and>
           new = concat (map (\<lambda>(f, xs). events_of beh xs f) (invocations new)) \<and>
           snd ` set (invocations new) \<subseteq> {args}"
  using assms
proof (induction beh args index s log y rule: forEach.raw_induct [rotated 1, consumes 1])
  case (1 forEach' beh args index s log y)
  show ?case
  proof (cases "index < length (listeners s)")
    case False
    with "1"(2) show ?thesis by auto
  next
    case lt: True
    show ?thesis
    proof (cases "listeners s ! index")
      case None
      with lt "1"(2) have "forEach' beh args (Suc index) s log = Some y" by simp
      then show ?thesis by (rule "1"(1))
    next
      case (Some f)
      with lt "1"(2)
      have "forEach' beh args (Suc index) (fold run_action (fst (beh f args)) s)
              (log @ events_of beh args f) = Some y"
        by (simp add: call_listener_def events_of_def)
      from "1"(1) [OF this] obtain new where y: "snd y = (log @ events_of beh args f) @ new"
        and sh: "new = concat (map (\<lambda>(f, xs). events_of beh xs f) (invocations new))"
        and ar: "snd ` set (invocations new) \<subseteq> {args}"
        by blast
      have "events_of beh args f @ new =
            concat (map (\<lambda>(f, xs). events_of beh xs f) (invocations (events_of beh args f @ new)))"
        using sh by simp
      moreover have "snd ` set (invocations (events_of beh args f @ new)) \<subseteq> {args}"
        using ar by simp
      ultimately show ?thesis using y
        by (intro exI [of _ "events_of beh args f @ new"]) simp
    qed
  qed
qed


lemma set_values_nth: "f \<in> set (set_values es) \<longleftrightarrow> (\<exists>j<length es. es ! j = Some f)"
  by (simp add: set_set_values in_set_conv_nth)

lemma run_action_entry:
  "j < length (listeners s) \<Longrightarrow>
   listeners (run_action a s) ! j = listeners s ! j \<or> listeners (run_action a s) ! j = None"
proof (cases a)
  case (Connect v)
  assume "j < length (listeners s)"
  with Connect show ?thesis
    by (cases v) (simp_all add: run_action_listeners set_add_def nth_append del: run_action.simps)
next
  case (Disconnect v)
  assume "j < length (listeners s)"
  with Disconnect show ?thesis
    by (cases v) (simp_all add: run_action_listeners del: run_action.simps)
next
  case Clear
  assume "j < length (listeners s)"
  with Clear show ?thesis by (simp add: run_action_listeners del: run_action.simps)
qed

lemma fold_run_action_entry:
  "j < length (listeners s) \<Longrightarrow>
   listeners (fold run_action acts s) ! j = listeners s ! j \<or>
   listeners (fold run_action acts s) ! j = None"
proof (induction acts arbitrary: s)
  case Nil
  show ?case by simp
next
  case (Cons a acts)
  have "j < length (listeners (run_action a s))"
    using Cons.prems run_action_length [of s a] by simp
  from Cons.IH [OF this] run_action_entry [OF Cons.prems, of a] show ?case
    by auto
qed

lemma run_action_origin:
  "set (set_values (listeners (run_action a s))) \<subseteq>
     set (set_values (listeners s)) \<union> {g. a = Connect (Fn g)}"
proof (cases a)
  case (Connect v)
  then show ?thesis
    by (cases v) (auto simp: run_action_listeners set_add_def simp del: run_action.simps)
next
  case (Disconnect v)
  then show ?thesis
    by (cases v) (auto simp: run_action_listeners set_values_tombstone simp del: run_action.simps)
next
  case Clear
  then show ?thesis by (simp add: run_action_listeners set_values_cleared del: run_action.simps)
qed

lemma fold_run_action_origin:
  "set (set_values (listeners (fold run_action acts s))) \<subseteq>
     set (set_values (listeners s)) \<union> {g. Connect (Fn g) \<in> set acts}"
proof (induction acts arbitrary: s)
  case Nil
  show ?case by simp
next
  case (Cons a acts)
  from Cons.IH [of "run_action a s"] run_action_origin [of a s] show ?case
    by auto
qed


lemma forEach_final_invoked_aux:
  assumes "forEach beh args index s log = Some y"
  shows "index \<le> length (listeners s) \<longrightarrow>
         (\<forall>j<index. \<forall>g. listeners s ! j = Some g \<longrightarrow> g \<in> fst ` set (invocations log)) \<longrightarrow>
         set (set_values (listeners (fst y))) \<subseteq> fst ` set (invocations (snd y))"
  using assms
proof (induction beh args index s log y rule: forEach.raw_induct [rotated 1, consumes 1])
  case (1 forEach' beh args index s log y)
  show ?case
  proof (intro impI)
    assume le: "index \<le> length (listeners s)"
      and seen: "\<forall>j<index. \<forall>g. listeners s ! j = Some g \<longrightarrow> g \<in> fst ` set (invocations log)"
    show "set (set_values (listeners (fst y))) \<subseteq> fst ` set (invocations (snd y))"
    proof (cases "index < length (listeners s)")
      case False
      with "1"(2) le have "y = (s, log)" and "index = length (listeners s)" by simp_all
      with seen show ?thesis by (auto simp: set_values_nth)
    next
      case lt: True
      show ?thesis
      proof (cases "listeners s ! index")
        case None
        with lt "1"(2) have run: "forEach' beh args (Suc index) s log = Some y" by simp
        have "\<forall>j<Suc index. \<forall>g. listeners s ! j = Some g \<longrightarrow> g \<in> fst ` set (invocations log)"
          using seen None by (auto simp: less_Suc_eq)
        with "1"(1) [OF run] lt show ?thesis by simp
      next
        case (Some f)
        let ?s1 = "fold run_action (fst (beh f args)) s"
        from Some lt "1"(2)
        have run: "forEach' beh args (Suc index) ?s1 (log @ events_of beh args f) = Some y"
          by (simp add: call_listener_def events_of_def)
        have le1: "Suc index \<le> length (listeners ?s1)"
          using lt fold_run_action_length [of s "fst (beh f args)"] by simp
        have "\<forall>j<Suc index. \<forall>g. listeners ?s1 ! j = Some g \<longrightarrow>
                g \<in> fst ` set (invocations (log @ events_of beh args f))"
        proof (intro allI impI)
          fix j g
          assume j: "j < Suc index" and g: "listeners ?s1 ! j = Some g"
          have "j < length (listeners s)" using j lt by simp
          from fold_run_action_entry [OF this, of "fst (beh f args)"] g
          have old: "listeners s ! j = Some g" by auto
          show "g \<in> fst ` set (invocations (log @ events_of beh args f))"
          proof (cases "j = index")
            case True
            with old Some show ?thesis by simp
          next
            case False
            with j have "j < index" by simp
            with seen old show ?thesis by auto
          qed
        qed
        with "1"(1) [OF run] le1 show ?thesis by simp
      qed
    qed
  qed
qed

lemma forEach_origin_aux:
  assumes "forEach beh args index s log = Some y"
  shows "\<exists>new. snd y = log @ new \<and>
           fst ` set (invocations new) \<subseteq>
             set (set_values (listeners s)) \<union> {g. Connect (Fn g) \<in> set (executed beh new)}"
  using assms
proof (induction beh args index s log y rule: forEach.raw_induct [rotated 1, consumes 1])
  case (1 forEach' beh args index s log y)
  show ?case
  proof (cases "index < length (listeners s)")
    case False
    with "1"(2) show ?thesis by auto
  next
    case lt: True
    show ?thesis
    proof (cases "listeners s ! index")
      case None
      with lt "1"(2) have "forEach' beh args (Suc index) s log = Some y" by simp
      then show ?thesis by (rule "1"(1))
    next
      case (Some f)
      let ?s1 = "fold run_action (fst (beh f args)) s"
      from Some lt "1"(2)
      have "forEach' beh args (Suc index) ?s1 (log @ events_of beh args f) = Some y"
        by (simp add: call_listener_def events_of_def)
      from "1"(1) [OF this] obtain new where y: "snd y = (log @ events_of beh args f) @ new"
        and sub: "fst ` set (invocations new) \<subseteq>
             set (set_values (listeners ?s1)) \<union> {g. Connect (Fn g) \<in> set (executed beh new)}"
        by blast
      have f: "f \<in> set (set_values (listeners s))"
        using Some lt by (auto simp: set_values_nth)
      have "fst ` set (invocations (events_of beh args f @ new)) \<subseteq>
             set (set_values (listeners s)) \<union>
             {g. Connect (Fn g) \<in> set (executed beh (events_of beh args f @ new))}"
        using sub f fold_run_action_origin [of "fst (beh f args)" s] by auto
      with y show ?thesis by (intro exI [of _ "events_of beh args f @ new"]) simp
    qed
  qed
qed


section \<open>Properties of the store\<close>

lemma object_literal_eq: "object_literal h vs = (h @ [literal_props h vs], Ref (length h))"
  by (simp add: object_literal_def alloc_def)








lemma group_at_put_group: "group_at (put_group so hl g) hl = g"
  by (cases hl) (simp_all add: update_conv')

lemma put_group_twice: "put_group (put_group so hl g) hl g' = put_group so hl g'"
  by (cases hl) simp_all

lemma signal_at_put_at: "signal_at (put_at so hl n sg) hl n = sg"
  by (simp add: signal_at_def put_at_def group_at_put_group put_signal_def update_conv')

lemma put_at_twice: "put_at (put_at so hl n sg) hl n sg' = put_at so hl n sg'"
  by (simp add: put_at_def group_at_put_group put_group_twice put_signal_def)

lemma entries_at_put_at:
  "entries_at hl n (h, s\<lparr>store_signals := put_at so hl n sg\<rparr>) = listeners sg"
  by (simp add: entries_at_def signal_at_put_at)

text \<open>After \<open>channel\<close> the signal it returns is held by the group it names.\<close>

lemma put_signal_get:
  "put_signal n (fst (SignalGroup_get n g)) (snd (SignalGroup_get n g)) = snd (SignalGroup_get n g)"
  by (cases "map_of (signals g) n") (simp_all add: SignalGroup_get_def put_signal_def update_triv)

lemma channel_put_at:
  assumes "channel so g n = Inr (hl, sg, so1)"
  shows "put_at so1 hl n sg = so1"
proof (cases "signals_read so g")
  case (Group hl')
  with assms have hl: "hl' = hl" and sg: "sg = fst (SignalGroup_get n (group_at so hl))"
    and so1: "so1 = put_group so hl (snd (SignalGroup_get n (group_at so hl)))"
    by (auto simp: channel_def split: prod.splits)
  show ?thesis
    by (simp add: so1 sg put_at_def group_at_put_group put_group_twice put_signal_get)
next
  case ProtoMap
  with assms have hl: "hl = Proto" and so1: "so1 = so"
    and sg: "map_of (signals (group_at so Proto)) n = Some sg"
    by (auto simp: channel_def split: option.splits)
  from ProtoMap obtain pg where pg: "proto so = Some pg"
    by (auto simp: signals_read_def split: option.splits if_splits)
  with sg show ?thesis
    by (simp add: hl so1 put_at_def put_signal_def update_triv)
qed (use assms in \<open>simp_all add: channel_def\<close>)










text \<open>
  The loop of \<open>Signal_emit\<close> is the loop \<open>forEach_in\<close> for a state that is the signal
  itself and a callback that always returns.
\<close>

lemma forEach_as_forEach_in:
  assumes "forEach beh args index s log = Some y"
  shows "forEach_in listeners (\<lambda>f s. Some (call_listener beh f args s)) index s log = Some y"
  using assms
proof (induction beh args index s log y rule: forEach.raw_induct [rotated 1, consumes 1])
  case (1 forEach' beh args index s log y)
  show ?case
  proof (cases "index < length (listeners s)")
    case False
    with "1"(2) show ?thesis by (subst forEach_in.simps) simp
  next
    case lt: True
    show ?thesis
    proof (cases "listeners s ! index")
      case None
      with lt "1"(2) have "forEach' beh args (Suc index) s log = Some y" by simp
      from "1"(1) [OF this] lt None show ?thesis by (subst forEach_in.simps) simp
    next
      case (Some f)
      with lt "1"(2)
      have "forEach' beh args (Suc index) (fst (call_listener beh f args s))
              (log @ snd (call_listener beh f args s)) = Some y"
        by simp
      from "1"(1) [OF this] lt Some show ?thesis
        by (subst forEach_in.simps) (simp add: case_prod_beta)
    qed
  qed
qed

lemma forEach_in_as_forEach:
  assumes "forEach_in entries callback index s log = Some y"
  shows "entries = listeners \<longrightarrow> callback = (\<lambda>f s. Some (call_listener beh f args s)) \<longrightarrow>
         forEach beh args index s log = Some y"
  using assms
proof (induction entries callback index s log y rule: forEach_in.raw_induct [rotated 1, consumes 1])
  case (1 forEach' entries callback index s log y)
  show ?case
  proof (intro impI)
    assume en: "entries = listeners"
      and cb: "callback = (\<lambda>f s. Some (call_listener beh f args s))"
    show "forEach beh args index s log = Some y"
    proof (cases "index < length (listeners s)")
      case False
      with "1"(2) en show ?thesis by (subst forEach.simps) simp
    next
      case lt: True
      show ?thesis
      proof (cases "listeners s ! index")
        case None
        with lt "1"(2) en have "forEach' entries callback (Suc index) s log = Some y" by simp
        from "1"(1) [OF this] en cb lt None show ?thesis by (subst forEach.simps) simp
      next
        case (Some f)
        with lt "1"(2) en cb
        have "forEach' entries callback (Suc index) (fst (call_listener beh f args s))
                (log @ snd (call_listener beh f args s)) = Some y"
          by (simp add: case_prod_beta)
        from "1"(1) [OF this] en cb lt Some show ?thesis by (subst forEach.simps) simp
      qed
    qed
  qed
qed

lemma forEach_in_signal:
  "forEach_in listeners (\<lambda>f s. Some (call_listener beh f args s)) index s log =
     forEach beh args index s log"
proof (cases "forEach beh args index s log")
  case (Some y)
  then show ?thesis by (simp add: forEach_as_forEach_in)
next
  case None
  show ?thesis
  proof (cases "forEach_in listeners (\<lambda>f s. Some (call_listener beh f args s)) index s log")
    case inner: None
    with None show ?thesis by simp
  next
    case (Some y)
    from forEach_in_as_forEach [OF Some, of beh args] None show ?thesis by simp
  qed
qed

lemma run_steps_local:
  "list_all is_local sts \<Longrightarrow>
   run_steps run call hl n sts (h, s\<lparr>store_signals := put_at so hl n sg\<rparr>) =
     Some ((h, s\<lparr>store_signals := put_at so hl n (fold run_action (actions_of sts) sg)\<rparr>), [], None)"
proof (induction sts arbitrary: sg)
  case Nil
  show ?case by simp
next
  case (Cons st sts)
  from Cons.prems obtain a where st: "st = Local a" and rest: "list_all is_local sts"
    by (cases st) auto
  from Cons.IH [OF rest, of "run_action a sg"] st show ?case
    by (simp add: signal_at_put_at put_at_twice)
qed

lemma run_listener_local:
  assumes "list_all is_local (fst (beh f args))"
  shows "run_listener beh call (Suc depth) hl n args f (h, s\<lparr>store_signals := put_at so hl n sg\<rparr>) =
           Some ((h, s\<lparr>store_signals := put_at so hl n (fst (call_listener (local_part beh) f args sg))\<rparr>),
                 snd (call_listener (local_part beh) f args sg))"
  using assms by (simp add: run_steps_local call_listener_def local_part_def)

declare run_listener.simps [simp del]

lemma forEach_lift:
  assumes "forEach lb args index sg log = Some y"
  shows "lb = local_part beh \<longrightarrow> local_only beh \<longrightarrow>
         (\<forall>h s so. forEach_in (entries_at hl n) (run_listener beh call (Suc depth) hl n args) index
                     (h, s\<lparr>store_signals := put_at so hl n sg\<rparr>) log =
                   Some ((h, s\<lparr>store_signals := put_at so hl n (fst y)\<rparr>), snd y))"
  using assms
proof (induction lb args index sg log y rule: forEach.raw_induct [rotated 1, consumes 1])
  case (1 forEach' lb args index sg log y)
  show ?case
  proof (intro impI allI)
    fix h s so
    assume lb: "lb = local_part beh" and loc: "local_only beh"
    let ?cb = "run_listener beh call (Suc depth) hl n args"
    show "forEach_in (entries_at hl n) ?cb index (h, s\<lparr>store_signals := put_at so hl n sg\<rparr>) log =
            Some ((h, s\<lparr>store_signals := put_at so hl n (fst y)\<rparr>), snd y)"
    proof (cases "index < length (listeners sg)")
      case False
      with "1"(2) show ?thesis
        by (subst forEach_in.simps) (auto simp: entries_at_put_at)
    next
      case lt: True
      show ?thesis
      proof (cases "listeners sg ! index")
        case None
        with lt "1"(2) have "forEach' lb args (Suc index) sg log = Some y" by simp
        from "1"(1) [OF this] lb loc lt None show ?thesis
          by (subst forEach_in.simps) (simp add: entries_at_put_at)
      next
        case (Some f)
        from loc have l: "list_all is_local (fst (beh f args))" by (simp add: local_only_def)
        from Some lt "1"(2)
        have "forEach' lb args (Suc index) (fst (call_listener lb f args sg))
                (log @ snd (call_listener lb f args sg)) = Some y"
          by simp
        from "1"(1) [OF this] lb loc lt Some show ?thesis
          by (subst forEach_in.simps) (simp add: entries_at_put_at run_listener_local l)
      qed
    qed
  qed
qed

lemma forEach_in_unlift:
  assumes "forEach_in entries callback index w log = Some z"
  shows "\<forall>sg h s so. entries = entries_at hl n \<longrightarrow>
           callback = run_listener beh call (Suc depth) hl n args \<longrightarrow> local_only beh \<longrightarrow>
           w = (h, s\<lparr>store_signals := put_at so hl n sg\<rparr>) \<longrightarrow>
           (\<exists>y. forEach (local_part beh) args index sg log = Some y \<and>
                z = ((h, s\<lparr>store_signals := put_at so hl n (fst y)\<rparr>), snd y))"
  using assms
proof (induction entries callback index w log z rule: forEach_in.raw_induct [rotated 1, consumes 1])
  case (1 forEach' entries callback index w log z)
  show ?case
  proof (intro impI allI)
    fix sg h s so
    assume en: "entries = entries_at hl n"
      and cb: "callback = run_listener beh call (Suc depth) hl n args"
      and loc: "local_only beh"
      and w: "w = (h, s\<lparr>store_signals := put_at so hl n sg\<rparr>)"
    have ent: "entries w = listeners sg" by (simp add: en w entries_at_put_at)
    show "\<exists>y. forEach (local_part beh) args index sg log = Some y \<and>
                z = ((h, s\<lparr>store_signals := put_at so hl n (fst y)\<rparr>), snd y)"
    proof (cases "index < length (listeners sg)")
      case False
      with "1"(2) ent have "z = (w, log)" by simp
      moreover have "forEach (local_part beh) args index sg log = Some (sg, log)"
        using False by (subst forEach.simps) simp
      ultimately show ?thesis by (simp add: w)
    next
      case lt: True
      show ?thesis
      proof (cases "listeners sg ! index")
        case None
        with lt "1"(2) ent have "forEach' entries callback (Suc index) w log = Some z" by simp
        from "1"(1) [OF this] en cb loc w
        obtain y where "forEach (local_part beh) args (Suc index) sg log = Some y"
          and "z = ((h, s\<lparr>store_signals := put_at so hl n (fst y)\<rparr>), snd y)"
          by blast
        with lt None show ?thesis by (subst forEach.simps) simp
      next
        case (Some f)
        from loc have l: "list_all is_local (fst (beh f args))" by (simp add: local_only_def)
        let ?sg1 = "fst (call_listener (local_part beh) f args sg)"
        let ?evs = "snd (call_listener (local_part beh) f args sg)"
        from Some lt "1"(2) ent
        have "forEach' entries callback (Suc index) (h, s\<lparr>store_signals := put_at so hl n ?sg1\<rparr>)
                (log @ ?evs) = Some z"
          by (simp add: cb w run_listener_local l)
        from "1"(1) [OF this] en cb loc
        obtain y where "forEach (local_part beh) args (Suc index) ?sg1 (log @ ?evs) = Some y"
          and "z = ((h, s\<lparr>store_signals := put_at so hl n (fst y)\<rparr>), snd y)"
          by blast
        with lt Some show ?thesis by (subst forEach.simps) simp
      qed
    qed
  qed
qed

text \<open>
  With listeners that do not call back into the store, the loop over a channel of the
  store is the loop of \<open>Signal_emit\<close> over the signal of that channel.
\<close>

lemma forEach_in_local:
  assumes "local_only beh"
  shows "forEach_in (entries_at hl n) (run_listener beh call (Suc depth) hl n args) index
           (h, s\<lparr>store_signals := put_at so hl n sg\<rparr>) log =
         (case forEach (local_part beh) args index sg log of
            None \<Rightarrow> None
          | Some (sg', log') \<Rightarrow> Some ((h, s\<lparr>store_signals := put_at so hl n sg'\<rparr>), log'))"
proof (cases "forEach (local_part beh) args index sg log")
  case (Some y)
  from forEach_lift [OF Some, of beh hl n call depth] assms Some show ?thesis
    by (simp add: case_prod_beta)
next
  case None
  show ?thesis
  proof (cases "forEach_in (entries_at hl n) (run_listener beh call (Suc depth) hl n args) index
           (h, s\<lparr>store_signals := put_at so hl n sg\<rparr>) log")
    case inner: None
    with None show ?thesis by simp
  next
    case (Some z)
    from forEach_in_unlift [OF Some, of hl n beh call depth args, rule_format, OF refl refl assms refl]
    obtain y where "forEach (local_part beh) args index sg log = Some y" by blast
    with None show ?thesis by simp
  qed
qed

lemma signal_at_get: "fst (SignalGroup_get n (group_at so hl)) = signal_at so hl n"
  by (simp add: SignalGroup_get_def signal_at_def split: option.splits)

lemma put_group_get:
  "put_group so hl (snd (SignalGroup_get n (group_at so hl))) = put_at so hl n (signal_at so hl n)"
  by (cases "map_of (signals (group_at so hl)) n")
     (simp_all add: SignalGroup_get_def signal_at_def put_at_def put_signal_def update_triv)

lemma channel_group:
  assumes "signals_read so g = Group hl"
  shows "channel so g n = Inr (hl, signal_at so hl n, put_at so hl n (signal_at so hl n))"
  using assms by (simp add: channel_def case_prod_beta signal_at_get put_group_get)

lemma read_own: "has_group so g \<Longrightarrow> signals_read so g = Group (Own g)"
  by (auto simp: signals_read_def has_group_def)

text \<open>
  With listeners that do not call back into the store, an emission on a channel of the
  store is \<open>Signal_emit\<close> on the signal of that channel, and changes nothing else.
\<close>

lemma emit_on_local:
  assumes "local_only beh"
  shows "emit_on (run_listener beh call (Suc depth)) g n args h s =
           (case channel (store_signals s) g n of
              Inl e \<Rightarrow> Some (Inl e, [], h, s)
            | Inr (hl, sg, so1) \<Rightarrow>
                (case Signal_emit (local_part beh) args sg of
                   None \<Rightarrow> None
                 | Some (sg', evs) \<Rightarrow>
                     Some (Inr (), Emitted g n args # evs, h,
                           s\<lparr>store_signals := put_at so1 hl n sg'\<rparr>)))"
proof (cases "channel (store_signals s) g n")
  case (Inl e)
  then show ?thesis by (simp add: emit_on_def)
next
  case (Inr t)
  obtain hl sg so1 where t: "t = (hl, sg, so1)" by (cases t) auto
  from Inr t have "put_at so1 hl n sg = so1" by (auto dest: channel_put_at)
  then have "s\<lparr>store_signals := so1\<rparr> = s\<lparr>store_signals := put_at so1 hl n sg\<rparr>" by simp
  with Inr t show ?thesis
    by (simp add: emit_on_def forEach_in_local [OF assms] Signal_emit_def split: option.splits)
qed

lemma Store_update_local:
  assumes "local_only beh"
  shows "Store_update (run_listener beh call (Suc depth)) call updater g n h s =
     (case apply_updater call updater h (state s) of
        Inl e \<Rightarrow> Some (Inl e, [], h @ [literal_props h [state s]], s)
      | Inr (h2, new) \<Rightarrow>
          if signals_read (store_signals s) g = Absent
          then Some (Inr new, [], h2 @ [literal_props h [state s]], s\<lparr>state := new\<rparr>)
          else (case channel (store_signals s) g n of
                  Inl e \<Rightarrow> Some (Inl e, [], h2 @ [literal_props h [state s]], s\<lparr>state := new\<rparr>)
                | Inr (hl, sg, so1) \<Rightarrow>
                    (case Signal_emit (local_part beh) [new, Ref (length h2)] sg of
                       None \<Rightarrow> None
                     | Some (sg', rest) \<Rightarrow>
                         Some (Inr new, Emitted g n [new, Ref (length h2)] # rest,
                               h2 @ [literal_props h [state s]],
                               s\<lparr>state := new, store_signals := put_at so1 hl n sg'\<rparr>))))"
  by (simp add: Store_update_def alloc_def emit_on_local [OF assms]
        split: sum.splits option.splits prod.splits)





lemma Signal_emit_quiet:
  assumes "\<forall>f\<in>set (set_values (listeners s)). fst (beh f args) = []"
  shows "Signal_emit beh args s =
           Some (s, concat (map (events_of beh args) (set_values (listeners s))))"
  using forEach_quiet [of 0 s beh args "[]"] assms by (simp add: Signal_emit_def)


lemma set_values_add:
  "set_values (set_add es f) =
     (if f \<in> set (set_values es) then set_values es else set_values es @ [f])"
  by (simp add: set_add_def set_set_values)


lemma set_ok_add: "set_ok es \<Longrightarrow> set_ok (set_add es f)"
  by (auto simp: set_ok_def set_values_add)



lemma apply_updater_object:
  "typeof updater = ''object'' \<Longrightarrow>
   apply_updater call updater h st = Inr (h @ [literal_props h [st, updater]], Ref (length h))"
  by (auto simp: apply_updater_def object_literal_eq)

lemma apply_updater_function:
  "typeof updater = ''function'' \<Longrightarrow> \<exists>f. updater = Fn f \<and> apply_updater call updater h st = call f h st"
  by (cases updater) (simp_all add: apply_updater_def)





lemma absent_not_proto: "signals_read so g = Absent \<Longrightarrow> g \<noteq> ''__proto__''"
  by (auto simp: signals_read_def object_prototype_names_def split: option.splits if_splits)

lemma read_after_write:
  "g \<noteq> ''__proto__'' \<Longrightarrow> signals_read (signals_write so g grp) g = Group (Own g)"
  by (simp add: signals_read_def signals_write_def update_conv')

lemma channel_new_group:
  assumes "g \<noteq> ''__proto__''"
  shows "channel (signals_write so g SignalGroup_new) g n =
           Inr (Own g, Signal_new,
                so\<lparr>own := AList.update g \<lparr>signals = [(n, Signal_new)]\<rparr> (own so)\<rparr>)"
  unfolding channel_def read_after_write [OF assms]
  using assms
  by (simp add: signals_write_def SignalGroup_get_def SignalGroup_new_def update_conv'
        update_last)

lemma Store_connect_missing_group:
  assumes "signals_read (store_signals s) g = Absent"
  shows "Store_connect g n (Fn f) h s =
           (Inr (Handle f), [], h,
            s\<lparr>store_signals :=
                (store_signals s)\<lparr>own := AList.update g \<lparr>signals = [(n, \<lparr>listeners = [Some f]\<rparr>)]\<rparr>
                                             (own (store_signals s))\<rparr>\<rparr>)"
  unfolding Store_connect_def Let_def
  using assms
  by (simp add: channel_new_group [OF absent_not_proto [OF assms]] Signal_connect_def
        Signal_new_def set_add_def put_signal_def update_conv' update_last)

lemma Store_connect_failure_keeps_group:
  assumes "signals_read (store_signals s) g = Absent" and "typeof v \<noteq> ''function''"
  shows "Store_connect g n v h s =
           (Inl (TypeError ''Signal listener must be a function''), [], h,
            s\<lparr>store_signals :=
                (store_signals s)\<lparr>own := AList.update g \<lparr>signals = [(n, Signal_new)]\<rparr>
                                             (own (store_signals s))\<rparr>\<rparr>)"
  unfolding Store_connect_def Let_def
  using assms
  by (simp add: channel_new_group [OF absent_not_proto [OF assms(1)]] Signal_connect_def)


lemma Store_update_rejected:
  assumes "apply_updater call updater h (state s) = Inl e"
  shows "Store_update run call updater g n h s = Some (Inl e, [], h @ [literal_props h [state s]], s)"
  using assms by (simp add: Store_update_def)

text \<open>
  For every updater whose \<^verbatim>\<open>typeof\<close> is neither \<^verbatim>\<open>"function"\<close> nor \<^verbatim>\<open>"object"\<close>
  (\<^verbatim>\<open>undefined\<close>, a boolean, a number, a string), \<^verbatim>\<open>update\<close> throws the \<^verbatim>\<open>TypeError\<close>,
  emits nothing and leaves the store as it was; only the snapshot of the old state has
  been allocated.
\<close>

lemma Store_update_rejects_other:
  assumes "typeof updater \<noteq> ''function''" and "typeof updater \<noteq> ''object''"
  shows "Store_update run call updater g n h s =
           Some (Inl (TypeError ''Updater must be an object or a function''), [],
                 h @ [literal_props h [state s]], s)"
  using assms by (simp add: Store_update_rejected apply_updater_def)

lemma Store_update_missing_group:
  assumes "signals_read (store_signals s) g = Absent"
    and "apply_updater call updater h (state s) = Inr (h2, new)"
  shows "Store_update run call updater g n h s =
           Some (Inr new, [], h2 @ [literal_props h [state s]], s\<lparr>state := new\<rparr>)"
  using assms by (simp add: Store_update_def alloc_def)






lemma Store_update_returns_state:
  assumes "Store_update run call updater g n h s = Some (Inr v, evs, h', s')"
  shows "v = state s'"
proof (cases "apply_updater call updater h (state s)")
  case (Inl e)
  with assms show ?thesis by (simp add: Store_update_def)
next
  case (Inr t)
  obtain h2 new where t: "t = (h2, new)" by (cases t) auto
  with assms Inr show ?thesis
    by (auto simp: Store_update_def alloc_def Let_def split: if_splits option.splits sum.splits)
qed

lemma Store_update_returns:
  assumes loc: "local_only beh"
    and run: "Store_update (run_listener beh call (Suc depth)) call updater g n h s =
                Some (Inr v, evs, h', s')"
  shows "\<exists>h2. apply_updater call updater h (state s) = Inr (h2, v) \<and> state s' = v \<and>
           h' = h2 @ [literal_props h [state s]] \<and>
           (signals_read (store_signals s) g = Absent \<longrightarrow> evs = [] \<and> s' = s\<lparr>state := v\<rparr>) \<and>
           (signals_read (store_signals s) g \<noteq> Absent \<longrightarrow>
              (\<exists>hl sg so1 sg' rest.
                  channel (store_signals s) g n = Inr (hl, sg, so1) \<and>
                  Signal_emit (local_part beh) [v, Ref (length h2)] sg = Some (sg', rest) \<and>
                  evs = Emitted g n [v, Ref (length h2)] # rest \<and>
                  s' = s\<lparr>state := v, store_signals := put_at so1 hl n sg'\<rparr>))"
proof (cases "apply_updater call updater h (state s)")
  case (Inl e)
  with run show ?thesis by (simp add: Store_update_local [OF loc])
next
  case (Inr t)
  obtain h2 new where t: "t = (h2, new)" by (cases t) auto
  show ?thesis
  proof (cases "signals_read (store_signals s) g = Absent")
    case True
    with run Inr t show ?thesis by (auto simp: Store_update_local [OF loc])
  next
    case False
    with run Inr t show ?thesis
      by (auto simp: Store_update_local [OF loc] split: sum.splits option.splits)
  qed
qed

lemma local_part_quiet: "fst (beh f args) = [] \<Longrightarrow> fst (local_part beh f args) = []"
  by (simp add: local_part_def)

text \<open>
  More levels of nesting do not change a result: whatever returns with one runner returns
  the same with every runner that returns at least what that runner returns.
\<close>

lemma forEach_in_mono:
  assumes "forEach_in entries callback index w log = Some y"
  shows "(\<forall>f w r. callback f w = Some r \<longrightarrow> callback' f w = Some r) \<longrightarrow>
         forEach_in entries callback' index w log = Some y"
  using assms
proof (induction entries callback index w log y rule: forEach_in.raw_induct [rotated 1, consumes 1])
  case (1 forEach' entries callback index w log y)
  show ?case
  proof (intro impI)
    assume le: "\<forall>f w r. callback f w = Some r \<longrightarrow> callback' f w = Some r"
    show "forEach_in entries callback' index w log = Some y"
    proof (cases "index < length (entries w)")
      case False
      with "1"(2) show ?thesis by (subst forEach_in.simps) simp
    next
      case lt: True
      show ?thesis
      proof (cases "entries w ! index")
        case None
        with lt "1"(2) have "forEach' entries callback (Suc index) w log = Some y" by simp
        from "1"(1) [OF this] le lt None show ?thesis
          by (subst forEach_in.simps) simp
      next
        case (Some f)
        with lt "1"(2) obtain w1 evs where cb: "callback f w = Some (w1, evs)"
          and run: "forEach' entries callback (Suc index) w1 (log @ evs) = Some y"
          by (auto split: option.splits)
        from le cb have cb': "callback' f w = Some (w1, evs)" by blast
        from "1"(1) [OF run] le lt Some cb' show ?thesis
          by (subst forEach_in.simps) simp
      qed
    qed
  qed
qed

lemma emit_on_mono:
  assumes le: "\<And>hl n args f w r. run hl n args f w = Some r \<Longrightarrow> run' hl n args f w = Some r"
    and run: "emit_on run g n args h s = Some r"
  shows "emit_on run' g n args h s = Some r"
proof (cases "channel (store_signals s) g n")
  case (Inl e)
  with run show ?thesis by (simp add: emit_on_def)
next
  case (Inr t)
  obtain hl sg so1 where t: "t = (hl, sg, so1)" by (cases t) auto
  from run Inr t obtain y
    where fe: "forEach_in (entries_at hl n) (run hl n args) 0 (h, s\<lparr>store_signals := so1\<rparr>) [] = Some y"
    by (auto simp: emit_on_def split: option.splits)
  from forEach_in_mono [OF fe, of "run' hl n args"] le
  have "forEach_in (entries_at hl n) (run' hl n args) 0 (h, s\<lparr>store_signals := so1\<rparr>) [] = Some y"
    by blast
  with run Inr t fe show ?thesis by (simp add: emit_on_def)
qed

lemma Store_update_mono:
  assumes le: "\<And>hl n args f w r. run hl n args f w = Some r \<Longrightarrow> run' hl n args f w = Some r"
    and run: "Store_update run call updater g n h s = Some r"
  shows "Store_update run' call updater g n h s = Some r"
proof (cases "apply_updater call updater h (state s)")
  case (Inl e)
  with run show ?thesis by (simp add: Store_update_def)
next
  case (Inr t)
  obtain h2 new where t: "t = (h2, new)" by (cases t) auto
  show ?thesis
  proof (cases "signals_read (store_signals s) g = Absent")
    case True
    with run Inr t show ?thesis by (simp add: Store_update_def alloc_def)
  next
    case False
    let ?e = "\<lambda>run. emit_on run g n [new, Ref (length h2)] (h2 @ [literal_props h [state s]])
                      (s\<lparr>state := new\<rparr>)"
    from run Inr t False obtain x where x: "?e run = Some x"
      by (auto simp: Store_update_def alloc_def split: option.splits)
    from emit_on_mono [OF le x] have "?e run' = Some x" by simp
    with run Inr t False x show ?thesis by (simp add: Store_update_def alloc_def)
  qed
qed

lemma Store_reset_mono:
  assumes le: "\<And>hl n args f w r. run hl n args f w = Some r \<Longrightarrow> run' hl n args f w = Some r"
    and run: "Store_reset run x h s = Some r"
  shows "Store_reset run' x h s = Some r"
proof (cases "signals_read (store_signals s) ''state'' = Absent")
  case True
  with run show ?thesis by (simp add: Store_reset_def object_literal_eq)
next
  case False
  let ?e = "\<lambda>run. emit_on run ''state'' ''reset'' [Ref (Suc (length h)), Ref (length h)]
                    (h @ [literal_props h [state s], literal_props (h @ [literal_props h [state s]]) [x]])
                    (s\<lparr>state := Ref (Suc (length h))\<rparr>)"
  from run False obtain y where y: "?e run = Some y"
    by (auto simp: Store_reset_def object_literal_eq split: option.splits)
  from emit_on_mono [OF le y] have "?e run' = Some y" by simp
  with run False y show ?thesis by (simp add: Store_reset_def object_literal_eq)
qed

lemma run_step_mono:
  assumes le: "\<And>hl n args f w r. run hl n args f w = Some r \<Longrightarrow> run' hl n args f w = Some r"
    and run: "run_step run call hl n st w = Some r"
  shows "run_step run' call hl n st w = Some r"
proof -
  obtain h s where w: "w = (h, s)" by (cases w) auto
  show ?thesis
  proof (cases st)
    case (Local a)
    with run w show ?thesis by simp
  next
    case (CallUpdate u g c)
    with run w obtain y where y: "Store_update run call u g c h s = Some y"
      by (auto split: option.splits)
    from Store_update_mono [OF le y] run w CallUpdate y show ?thesis by simp
  next
    case (CallReset x)
    with run w obtain y where y: "Store_reset run x h s = Some y"
      by (auto split: option.splits)
    from Store_reset_mono [OF le y] run w CallReset y show ?thesis by simp
  next
    case (CallConnect g c v)
    with run w show ?thesis by simp
  next
    case (CallEmit g c xs)
    with run w obtain y where y: "emit_on run g c xs h s = Some y"
      by (auto split: option.splits)
    from emit_on_mono [OF le y] run w CallEmit y show ?thesis by simp
  qed
qed

lemma run_steps_mono:
  assumes le: "\<And>hl n args f w r. run hl n args f w = Some r \<Longrightarrow> run' hl n args f w = Some r"
  shows "run_steps run call hl n sts w = Some r \<Longrightarrow> run_steps run' call hl n sts w = Some r"
proof (induction sts arbitrary: w r)
  case Nil
  then show ?case by simp
next
  case (Cons st sts)
  from Cons.prems obtain w1 evs failed
    where y: "run_step run call hl n st w = Some (w1, evs, failed)"
    by (auto split: option.splits)
  from run_step_mono [OF le y]
  have y': "run_step run' call hl n st w = Some (w1, evs, failed)" by simp
  show ?case
  proof (cases failed)
    case (Some e)
    with Cons.prems y have "r = (w1, evs, Some e)" by simp
    with y' Some show ?thesis by simp
  next
    case None
    with Cons.prems y obtain w2 evs2 r2
      where z: "run_steps run call hl n sts w1 = Some (w2, evs2, r2)"
        and r: "r = (w2, evs @ evs2, r2)"
      by (auto split: option.splits)
    from Cons.IH [OF z] y' None r show ?thesis by simp
  qed
qed

lemma run_listener_deeper:
  "run_listener beh call depth hl n args f w = Some r \<Longrightarrow>
   run_listener beh call (Suc depth) hl n args f w = Some r"
proof (induction depth arbitrary: hl n args f w r)
  case 0
  then show ?case by (simp add: run_listener.simps)
next
  case (Suc depth)
  from Suc.prems obtain y
    where y: "run_steps (run_listener beh call depth) call hl n (fst (beh f args)) w = Some y"
    by (auto simp: run_listener.simps(2) [of beh call depth] split: option.splits)
  have "run_steps (run_listener beh call (Suc depth)) call hl n (fst (beh f args)) w = Some y"
    using Suc.IH y by (rule run_steps_mono)
  with Suc.prems y show ?case
    by (simp add: run_listener.simps(2) [of beh call "Suc depth"]
          run_listener.simps(2) [of beh call depth])
qed

lemma Store_update_deeper:
  "Store_update (run_listener beh call depth) call updater g n h s = Some r \<Longrightarrow>
   Store_update (run_listener beh call (Suc depth)) call updater g n h s = Some r"
  using run_listener_deeper by (rule Store_update_mono)

lemma Store_reset_deeper:
  "Store_reset (run_listener beh call depth) x h s = Some r \<Longrightarrow>
   Store_reset (run_listener beh call (Suc depth)) x h s = Some r"
  using run_listener_deeper by (rule Store_reset_mono)

text \<open>
  Nested emissions need not end: a listener of \<^verbatim>\<open>state\<close>/\<^verbatim>\<open>changed\<close> that calls
  \<^verbatim>\<open>update\<close> is called again by the emission of its own call. Then \<^verbatim>\<open>update\<close> returns
  at no depth.
\<close>

lemma nested_update_may_not_return:
  "store_signals s = store_signals watched_store \<Longrightarrow>
   Store_update (run_listener meddler call depth) call (Ref 1) ''state'' ''changed'' h s = None"
proof (induction depth arbitrary: h s)
  case 0
  then show ?case
    by (simp add: Store_update_def apply_updater_def object_literal_eq alloc_def
          watched_store_def signals_read_def emit_on_def channel_def SignalGroup_get_def
          forEach_in.simps entries_at_def signal_at_def run_listener.simps)
next
  case (Suc depth)
  have steps: "fst (meddler (Suc 0) xs) = [CallUpdate (Ref (Suc 0)) ''state'' ''changed'']" for xs
    by (simp add: meddler_def)
  have inner: "run_listener meddler call (Suc depth) (Own ''state'') ''changed'' xs (Suc 0) (h', s') =
                 None"
    if "store_signals s' = store_signals watched_store" for xs h' s'
    using Suc.IH [OF that, of h'] by (simp add: run_listener.simps steps)
  from Suc.prems show ?case
    by (simp add: Store_update_def apply_updater_def object_literal_eq alloc_def inner
          watched_store_def signals_read_def emit_on_def channel_def SignalGroup_get_def
          forEach_in.simps entries_at_def signal_at_def)
qed

section \<open>Further properties used for the claims\<close>

lemma reported_events_of [simp]:
  "reported (events_of beh args f) = (case snd (beh f args) of None \<Rightarrow> [] | Some err \<Rightarrow> [err])"
  by (simp add: events_of_def split: option.splits)




lemma split_dot_flat: "CHR ''.'' \<notin> set k \<Longrightarrow> split_dot k = [k]"
  by (induction k) auto

lemma fold_set_prop_lookup:
  "map_of (fold (\<lambda>key. set_prop key (F key)) ks acc) k =
     (if k \<in> set ks \<and> k \<noteq> ''__proto__'' then Some (F k) else map_of acc k)"
  by (induction ks arbitrary: acc) (auto simp: set_prop_def update_conv')

lemma fold_set_prop_keys:
  "fst ` set (fold (\<lambda>key. set_prop key (F key)) ks acc) =
     fst ` set acc \<union> (set ks - {''__proto__''})"
proof (induction ks arbitrary: acc)
  case Nil
  show ?case by simp
next
  case (Cons k ks)
  show ?case
  proof (cases "k = ''__proto__''")
    case True
    with Cons.IH [of acc] show ?thesis by (simp add: set_prop_def)
  next
    case False
    with Cons.IH [of "AList.update k (F k) acc"] show ?thesis
      by (auto simp: set_prop_def dom_update)
  qed
qed

text \<open>
  \<open>split_dot\<close> cuts a string at its dots and nowhere else.
\<close>

lemma split_dot_nonempty: "split_dot s \<noteq> []"
  by (induction s) auto

lemma split_dot_pieces: "w \<in> set (split_dot s) \<Longrightarrow> CHR ''.'' \<notin> set w"
proof (induction s arbitrary: w)
  case Nil
  then show ?case by simp
next
  case (Cons c cs)
  obtain r rs where r: "split_dot cs = r # rs"
    using split_dot_nonempty [of cs] by (cases "split_dot cs") auto
  with Cons show ?case by (auto split: if_splits)
qed

lemma join_dot_char: "join_dot ((c # w) # ws) = c # join_dot (w # ws)"
  by (cases ws) simp_all

lemma join_split_dot: "join_dot (split_dot s) = s"
proof (induction s)
  case Nil
  show ?case by simp
next
  case (Cons c cs)
  obtain r rs where r: "split_dot cs = r # rs"
    using split_dot_nonempty [of cs] by (cases "split_dot cs") auto
  with Cons show ?case by (simp add: join_dot_char)
qed

text \<open>
  The set invariant holds for a new signal and is kept by every operation, and the loop
  of \<^verbatim>\<open>emit\<close> really may run forever: a listener that disconnects and connects itself
  again is appended behind the running index every time it is called.
\<close>

lemma set_ok_new: "set_ok (listeners Signal_new)"
  by (simp add: Signal_new_def set_ok_def)

lemma Signal_connect_set_ok:
  "Signal_connect v s = Inr (d, s') \<Longrightarrow> set_ok (listeners s) \<Longrightarrow> set_ok (listeners s')"
  by (cases v) (auto simp: Signal_connect_def set_ok_add)

lemma Signal_disconnect_set_ok:
  "set_ok (listeners s) \<Longrightarrow> set_ok (listeners (snd (Signal_disconnect v s)))"
  using run_action_set_ok [of s "Disconnect v"] by simp

lemma Signal_clear_set_ok: "set_ok (listeners (Signal_clear s))"
  by (simp add: Signal_clear_def set_clear_def set_ok_def set_values_cleared)

lemma forEach_set_ok:
  assumes "forEach beh args index s log = Some y"
  shows "set_ok (listeners s) \<longrightarrow> set_ok (listeners (fst y))"
  using assms
proof (induction beh args index s log y rule: forEach.raw_induct [rotated 1, consumes 1])
  case (1 forEach' beh args index s log y)
  show ?case
  proof (cases "index < length (listeners s)")
    case False
    with "1"(2) show ?thesis by auto
  next
    case lt: True
    show ?thesis
    proof (cases "listeners s ! index")
      case None
      with lt "1"(2) have "forEach' beh args (Suc index) s log = Some y" by simp
      then show ?thesis by (rule "1"(1))
    next
      case (Some f)
      with lt "1"(2)
      have "forEach' beh args (Suc index) (fold run_action (fst (beh f args)) s)
              (log @ events_of beh args f) = Some y"
        by (simp add: call_listener_def events_of_def)
      from "1"(1) [OF this] show ?thesis by (simp add: fold_run_action_set_ok)
    qed
  qed
qed

lemma Signal_emit_set_ok:
  "Signal_emit beh args s = Some (s', evs) \<Longrightarrow> set_ok (listeners s) \<Longrightarrow> set_ok (listeners s')"
  using forEach_set_ok [of beh args 0 s "[]" "(s', evs)"] by (simp add: Signal_emit_def)

lemma typeof_rejected:
  "typeof v \<noteq> ''function'' \<and> typeof v \<noteq> ''object'' \<longleftrightarrow>
     v = Undefined \<or> (\<exists>b. v = Bool b) \<or> (\<exists>n. v = Num n) \<or> (\<exists>x. v = Str x)"
  by (cases v) simp_all

lemma forEach_restless_aux:
  assumes "forEach beh args index s log = Some y"
  shows "beh = restless \<longrightarrow> (\<exists>k f. listeners s = replicate k None @ [Some f] \<and> index \<le> k) \<longrightarrow> False"
  using assms
proof (induction beh args index s log y rule: forEach.raw_induct [rotated 1, consumes 1])
  case (1 forEach' beh args index s log y)
  show ?case
  proof (intro impI)
    assume beh: "beh = restless"
      and "\<exists>k f. listeners s = replicate k None @ [Some f] \<and> index \<le> k"
    then obtain k f where ls: "listeners s = replicate k None @ [Some f]" and le: "index \<le> k"
      by blast
    then have lt: "index < length (listeners s)" by simp
    show False
    proof (cases "index = k")
      case False
      with le have less: "index < k" by simp
      with ls have "listeners s ! index = None" by (simp add: nth_append)
      with lt "1"(2) have run: "forEach' beh args (Suc index) s log = Some y" by simp
      from less have "Suc index \<le> k" by simp
      with "1"(1) [OF run] beh ls show False by blast
    next
      case True
      with ls have at: "listeners s ! index = Some f" by (simp add: nth_append)
      let ?s1 = "fold run_action (fst (beh f args)) s"
      from at lt "1"(2)
      have run: "forEach' beh args (Suc index) ?s1 (log @ events_of beh args f) = Some y"
        by (simp add: call_listener_def events_of_def)
      have "listeners ?s1 = replicate (Suc k) None @ [Some f]"
        using ls beh
        by (simp add: restless_def Signal_disconnect_def Signal_connect_def set_delete_def
              set_add_def replicate_append_same)
      moreover have "Suc index \<le> Suc k" using le by simp
      ultimately show False using "1"(1) [OF run] beh by blast
    qed
  qed
qed

lemma emit_may_not_return: "Signal_emit restless args \<lparr>listeners = [Some f]\<rparr> = None"
proof (cases "Signal_emit restless args \<lparr>listeners = [Some f]\<rparr>")
  case None
  then show ?thesis .
next
  case (Some y)
  then have "forEach restless args 0 \<lparr>listeners = [Some f]\<rparr> [] = Some y"
    by (simp add: Signal_emit_def)
  from forEach_restless_aux [OF this] have False
    by (auto dest: spec [of _ 0])
  then show ?thesis ..
qed

lemma run_action_absent:
  assumes "g \<notin> set (set_values (listeners s))" and "a \<noteq> Connect (Fn g)"
  shows "g \<notin> set (set_values (listeners (run_action a s)))"
  using run_action_origin [of a s] assms by auto

lemma run_action_disconnected:
  "g \<notin> set (set_values (listeners (run_action (Disconnect (Fn g)) s)))"
  by (simp add: run_disconnect_fn set_values_tombstone del: run_action.simps)

lemma fold_run_action_disconnected:
  assumes "Disconnect (Fn g) \<in> set acts \<or> g \<notin> set (set_values (listeners s))"
    and "Connect (Fn g) \<notin> set acts"
  shows "g \<notin> set (set_values (listeners (fold run_action acts s)))"
  using assms
proof (induction acts arbitrary: s)
  case Nil
  then show ?case by simp
next
  case (Cons a acts)
  have nc: "Connect (Fn g) \<notin> set acts" and a: "a \<noteq> Connect (Fn g)"
    using Cons.prems(2) by auto
  show ?case
  proof (cases "a = Disconnect (Fn g)")
    case True
    then have "g \<notin> set (set_values (listeners (run_action a s)))"
      using run_action_disconnected [of g s] by simp
    with Cons.IH [of "run_action a s"] nc show ?thesis by simp
  next
    case False
    show ?thesis
    proof (cases "g \<in> set (set_values (listeners s))")
      case True
      with Cons.prems(1) False have "Disconnect (Fn g) \<in> set acts" by auto
      with Cons.IH [of "run_action a s"] nc show ?thesis by simp
    next
      case absent: False
      from run_action_absent [OF absent a] Cons.IH [of "run_action a s"] nc
      show ?thesis by simp
    qed
  qed
qed

text \<open>
  Once a listener that disconnects \<open>g\<close> has been called, \<open>g\<close> is not called any more,
  provided that no listener connects it; and a listener that is not registered is not
  called, under the same proviso.
\<close>

lemma forEach_after_disconnect_aux:
  assumes "forEach beh args index s log = Some y"
  shows "(\<forall>f' xs. Connect (Fn g) \<notin> set (fst (beh f' xs))) \<longrightarrow>
         (\<exists>new. snd y = log @ new \<and>
            (g \<notin> set (set_values (listeners s)) \<longrightarrow> g \<notin> fst ` set (invocations new)) \<and>
            (\<forall>pre post f xs. new = pre @ Invoked f xs # post \<longrightarrow>
                Disconnect (Fn g) \<in> set (fst (beh f xs)) \<longrightarrow>
                g \<notin> fst ` set (invocations post)))"
  using assms
proof (induction beh args index s log y rule: forEach.raw_induct [rotated 1, consumes 1])
  case (1 forEach' beh args index s log y)
  show ?case
  proof (intro impI)
    assume nc: "\<forall>f' xs. Connect (Fn g) \<notin> set (fst (beh f' xs))"
    show "\<exists>new. snd y = log @ new \<and>
            (g \<notin> set (set_values (listeners s)) \<longrightarrow> g \<notin> fst ` set (invocations new)) \<and>
            (\<forall>pre post f xs. new = pre @ Invoked f xs # post \<longrightarrow>
                Disconnect (Fn g) \<in> set (fst (beh f xs)) \<longrightarrow>
                g \<notin> fst ` set (invocations post))"
    proof (cases "index < length (listeners s)")
      case False
      with "1"(2) show ?thesis by auto
    next
      case lt: True
      show ?thesis
      proof (cases "listeners s ! index")
        case None
        with lt "1"(2) have "forEach' beh args (Suc index) s log = Some y" by simp
        from "1"(1) [OF this] nc show ?thesis by blast
      next
        case (Some f0)
        let ?s1 = "fold run_action (fst (beh f0 args)) s"
        from Some lt "1"(2)
        have "forEach' beh args (Suc index) ?s1 (log @ events_of beh args f0) = Some y"
          by (simp add: call_listener_def events_of_def)
        from "1"(1) [OF this] nc obtain new where y: "snd y = (log @ events_of beh args f0) @ new"
          and absent: "g \<notin> set (set_values (listeners ?s1)) \<Longrightarrow> g \<notin> fst ` set (invocations new)"
          and later: "\<And>pre post f xs. new = pre @ Invoked f xs # post \<Longrightarrow>
                Disconnect (Fn g) \<in> set (fst (beh f xs)) \<Longrightarrow>
                g \<notin> fst ` set (invocations post)"
          by blast
        have f0: "f0 \<in> set (set_values (listeners s))"
          using Some lt by (auto simp: set_values_nth)
        have a: "g \<notin> fst ` set (invocations (events_of beh args f0 @ new))"
          if "g \<notin> set (set_values (listeners s))"
        proof -
          have "g \<notin> set (set_values (listeners ?s1))"
            using that nc by (intro fold_run_action_disconnected) auto
          from absent [OF this] that f0 show ?thesis by auto
        qed
        have b: "g \<notin> fst ` set (invocations post)"
          if split: "events_of beh args f0 @ new = pre @ Invoked f xs # post"
            and dis: "Disconnect (Fn g) \<in> set (fst (beh f xs))" for pre post f xs
        proof (cases pre)
          case Nil
          with split have f: "f = f0" "xs = args"
            and post: "invocations post = invocations new"
            by (auto simp: events_of_def split: option.splits)
          have "g \<notin> set (set_values (listeners ?s1))"
            using dis f nc by (intro fold_run_action_disconnected) auto
          from absent [OF this] post show ?thesis by simp
        next
          case (Cons p pre')
          with split have "\<exists>pre''. new = pre'' @ Invoked f xs # post"
            by (auto simp: events_of_def Cons_eq_append_conv split: option.splits)
          then obtain pre'' where "new = pre'' @ Invoked f xs # post" ..
          from later [OF this dis] show ?thesis .
        qed
        from y a b show ?thesis
          by (intro exI [of _ "events_of beh args f0 @ new"]) auto
      qed
    qed
  qed
qed

lemma Signal_emit_after_disconnect:
  assumes run: "Signal_emit beh args s = Some (s', evs)"
    and split: "evs = pre @ Invoked f xs # post"
    and dis: "Disconnect (Fn g) \<in> set (fst (beh f xs))"
    and nc: "\<forall>f' ys. Connect (Fn g) \<notin> set (fst (beh f' ys))"
  shows "g \<notin> fst ` set (invocations post)"
proof -
  from run have "forEach beh args 0 s [] = Some (s', evs)" by (simp add: Signal_emit_def)
  from forEach_after_disconnect_aux [OF this, of g] nc split dis show ?thesis
    by auto
qed




section \<open>The claims\<close>

subsection \<open>Claim C1\<close>



subsection \<open>Claim C2\<close>



subsection \<open>Claim C3\<close>

text \<open>
  Claim C3 says that \<^verbatim>\<open>update\<close> rejects every updater that is neither a mapping nor a
  function with a \<^verbatim>\<open>TypeError\<close>, leaving the state as it was and emitting nothing. For
  \<^verbatim>\<open>null\<close> the code does not: \<^verbatim>\<open>typeof null === "object"\<close>, so \<^verbatim>\<open>update(null)\<close> on
  the store built by \<^verbatim>\<open>new Store({a: 0, b: 2})\<close> takes the merge branch, throws nothing,
  replaces the state (reference 2) by a new copy (reference 3) and emits on
  \<^verbatim>\<open>state\<close>/\<^verbatim>\<open>changed\<close>, whatever the listeners and functions of the caller are. For
  the values whose \<^verbatim>\<open>typeof\<close> is neither \<^verbatim>\<open>"object"\<close> nor \<^verbatim>\<open>"function"\<close> the claim
  holds (lemma \<open>Store_update_rejects_other\<close>).
\<close>

theorem update_null_is_accepted:
  "typeof Null = ''object'' \<and>
   Store_update run call Null ''state'' ''changed'' counter_heap counter_store =
     Some (Inr (Ref 3), [Emitted ''state'' ''changed'' [Ref 3, Ref 4]],
           counter_heap @ [[(''a'', Num 0), (''b'', Num 2)], [(''a'', Num 0), (''b'', Num 2)]],
           \<lparr>state = Ref 3,
            store_signals = \<lparr>own = [(''state'', \<lparr>signals = [(''changed'', Signal_new)]\<rparr>)],
                              proto = None\<rparr>\<rparr>) \<and>
   state counter_store = Ref 2"
  by (simp add: Store_update_def apply_updater_def object_literal_eq literal_props_def alloc_def
        counter_heap_def base_heap_def counter_store_def signals_read_def emit_on_def channel_def
        SignalGroup_get_def SignalGroup_new_def Signal_new_def forEach_in.simps entries_at_def
        signal_at_def)

subsection \<open>Claim C4\<close>

text \<open>
  Claim C4 says that after every successful \<^verbatim>\<open>update\<close> the state is a reference that
  differs from the one the store held before. Two calls after which it is the same
  reference (reference 2). With a function updater the state is whatever the function
  returns: \<^verbatim>\<open>update(s => s)\<close> leaves the reference in place. And with the mapping
  updater \<^verbatim>\<open>{a: 1}\<close>, a listener of \<^verbatim>\<open>state\<close>/\<^verbatim>\<open>changed\<close> that itself calls
  \<^verbatim>\<open>update(() => original, "none", "changed")\<close> puts the original object back while the
  outer \<^verbatim>\<open>update\<close> is still emitting; the outer call then returns that object.
\<close>

theorem update_can_keep_reference_counterexample:
  "Store_update (run_listener onlooker returns_argument (Suc 0)) returns_argument (Fn 0)
      ''state'' ''changed'' counter_heap counter_store =
     Some (Inr (Ref 2), [Emitted ''state'' ''changed'' [Ref 2, Ref 3]],
           counter_heap @ [[(''a'', Num 0), (''b'', Num 2)]],
           \<lparr>state = Ref 2,
            store_signals = \<lparr>own = [(''state'', \<lparr>signals = [(''changed'', Signal_new)]\<rparr>)],
                              proto = None\<rparr>\<rparr>) \<and>
   state counter_store = Ref 2 \<and>
   Store_update (run_listener restorer returns_original (Suc (Suc 0))) returns_original (Ref 1)
      ''state'' ''changed'' counter_heap watched_store =
     Some (Inr (Ref 2),
           [Emitted ''state'' ''changed'' [Ref 3, Ref 4], Invoked 1 [Ref 3, Ref 4]],
           counter_heap @ [[(''a'', Num 1), (''b'', Num 2)], [(''a'', Num 0), (''b'', Num 2)],
                           [(''a'', Num 1), (''b'', Num 2)]],
           watched_store) \<and>
   state watched_store = Ref 2"
  by (simp add: Store_update_def apply_updater_def object_literal_eq literal_props_def alloc_def
        returns_argument_def returns_original_def restorer_def onlooker_def watched_store_def
        counter_heap_def base_heap_def counter_store_def signals_read_def emit_on_def channel_def
        SignalGroup_get_def SignalGroup_new_def Signal_new_def forEach_in.simps entries_at_def
        signal_at_def run_listener.simps object_prototype_names_def)

text \<open>
  Claim C4, amended. Whenever \<^verbatim>\<open>update\<close> returns a value, that value is the state it
  leaves, whatever the listeners did. The rest is for listeners that do not call back
  into the store. The heap that \<^verbatim>\<open>update\<close> leaves is the heap \<open>h2\<close> that the updater
  left, followed by the snapshot of the old state: the snapshot is the object allocated
  last (address \<open>length h2\<close>), and the new state, a value of \<open>h2\<close>, differs from
  it. If \<^verbatim>\<open>this.signals[signalGroup]\<close> is \<^verbatim>\<open>undefined\<close>, nothing is emitted and
  nothing but the state changes. Otherwise the emission carries the new state and the
  snapshot, to every listener it calls; on a group of the store it is \<^verbatim>\<open>Signal.emit\<close>
  on the signal of that channel, and if the listeners registered there leave the
  listener set alone it calls each of them once, in order. With an updater of type
  \<^verbatim>\<open>"object"\<close> the new state is a newly allocated object, different from the snapshot
  and from the state before. With a function updater it is the value the function
  returned.
\<close>

theorem update_replaces_state:
  assumes run: "Store_update (run_listener beh call depth) call updater signalGroup signalName h s =
                  Some (Inr v, evs, h', s')"
  shows "v = state s' \<and>
    (local_only beh \<longrightarrow>
     (\<exists>h2. h' = h2 @ [literal_props h [state s]] \<and>
          (allocated h2 (state s') \<longrightarrow> state s' \<noteq> Ref (length h2)) \<and>
          (signals_read (store_signals s) signalGroup = Absent \<longrightarrow>
             evs = [] \<and> s' = s\<lparr>state := state s'\<rparr>) \<and>
          (signals_read (store_signals s) signalGroup \<noteq> Absent \<longrightarrow>
             (\<exists>rest. evs = Emitted signalGroup signalName [state s', Ref (length h2)] # rest \<and>
                     snd ` set (invocations rest) \<subseteq> {[state s', Ref (length h2)]})) \<and>
          (has_group (store_signals s) signalGroup \<longrightarrow>
             (\<exists>sg' rest.
                 Signal_emit (local_part beh) [state s', Ref (length h2)]
                   (signal_at (store_signals s) (Own signalGroup) signalName) = Some (sg', rest) \<and>
                 evs = Emitted signalGroup signalName [state s', Ref (length h2)] # rest \<and>
                 store_signals s' = put_at (store_signals s) (Own signalGroup) signalName sg' \<and>
                 ((\<forall>f\<in>set (set_values (listeners
                            (signal_at (store_signals s) (Own signalGroup) signalName))).
                      fst (beh f [state s', Ref (length h2)]) = []) \<longrightarrow>
                  invocations rest =
                    map (\<lambda>f. (f, [state s', Ref (length h2)]))
                      (set_values (listeners
                         (signal_at (store_signals s) (Own signalGroup) signalName)))))) \<and>
          (typeof updater = ''object'' \<longrightarrow>
             h2 = h @ [literal_props h [state s, updater]] \<and> state s' = Ref (length h) \<and>
             state s' \<noteq> Ref (length h2) \<and> (allocated h (state s) \<longrightarrow> state s' \<noteq> state s)) \<and>
          (typeof updater = ''function'' \<longrightarrow>
             (\<exists>f. updater = Fn f \<and> call f h (state s) = Inr (h2, state s')))))"
proof (intro conjI impI)
  from run show "v = state s'" by (rule Store_update_returns_state)
next
  assume loc: "local_only beh"
  from run have "Store_update (run_listener beh call (Suc depth)) call updater signalGroup signalName h s =
                  Some (Inr v, evs, h', s')"
    by (rule Store_update_deeper)
  from Store_update_returns [OF loc this]
  obtain h2 where ap: "apply_updater call updater h (state s) = Inr (h2, v)"
    and v: "state s' = v"
    and h': "h' = h2 @ [literal_props h [state s]]"
    and absent: "signals_read (store_signals s) signalGroup = Absent \<longrightarrow>
                   evs = [] \<and> s' = s\<lparr>state := v\<rparr>"
    and emitted: "signals_read (store_signals s) signalGroup \<noteq> Absent \<longrightarrow>
              (\<exists>hl sg so1 sg' rest.
                  channel (store_signals s) signalGroup signalName = Inr (hl, sg, so1) \<and>
                  Signal_emit (local_part beh) [v, Ref (length h2)] sg = Some (sg', rest) \<and>
                  evs = Emitted signalGroup signalName [v, Ref (length h2)] # rest \<and>
                  s' = s\<lparr>state := v, store_signals := put_at so1 hl signalName sg'\<rparr>)"
    by blast
  let ?args = "[v, Ref (length h2)]"
  let ?ch = "signal_at (store_signals s) (Own signalGroup) signalName"
  have snap: "allocated h2 v \<longrightarrow> v \<noteq> Ref (length h2)" by (cases v) auto
  have e2: "\<exists>rest. evs = Emitted signalGroup signalName ?args # rest \<and>
                     snd ` set (invocations rest) \<subseteq> {?args}"
    if "signals_read (store_signals s) signalGroup \<noteq> Absent"
  proof -
    from emitted that obtain sg sg' rest
      where em: "Signal_emit (local_part beh) ?args sg = Some (sg', rest)"
        and evs: "evs = Emitted signalGroup signalName ?args # rest"
      by blast
    from em have "forEach (local_part beh) ?args 0 sg [] = Some (sg', rest)"
      by (simp add: Signal_emit_def)
    from forEach_shape_aux [OF this] evs show ?thesis by simp
  qed
  have e3: "\<exists>sg' rest.
                 Signal_emit (local_part beh) ?args ?ch = Some (sg', rest) \<and>
                 evs = Emitted signalGroup signalName ?args # rest \<and>
                 store_signals s' = put_at (store_signals s) (Own signalGroup) signalName sg' \<and>
                 ((\<forall>f\<in>set (set_values (listeners ?ch)). fst (beh f ?args) = []) \<longrightarrow>
                  invocations rest = map (\<lambda>f. (f, ?args)) (set_values (listeners ?ch)))"
    if g: "has_group (store_signals s) signalGroup"
  proof -
    from g have rd: "signals_read (store_signals s) signalGroup = Group (Own signalGroup)"
      by (rule read_own)
    with emitted channel_group [OF rd, of signalName] obtain sg' rest
      where em: "Signal_emit (local_part beh) ?args ?ch = Some (sg', rest)"
        and evs: "evs = Emitted signalGroup signalName ?args # rest"
        and s': "s' = s\<lparr>state := v,
                        store_signals := put_at (put_at (store_signals s) (Own signalGroup) signalName ?ch)
                                           (Own signalGroup) signalName sg'\<rparr>"
      by auto
    have "invocations rest = map (\<lambda>f. (f, ?args)) (set_values (listeners ?ch))"
      if "\<forall>f\<in>set (set_values (listeners ?ch)). fst (beh f ?args) = []"
    proof -
      from that have "\<forall>f\<in>set (set_values (listeners ?ch)). fst (local_part beh f ?args) = []"
        by (simp add: local_part_quiet)
      with Signal_emit_quiet [of ?ch "local_part beh" ?args] em show ?thesis
        by (simp add: invocations_concat_events)
    qed
    with em evs s' show ?thesis by (simp add: put_at_twice)
  qed
  have obj: "h2 = h @ [literal_props h [state s, updater]] \<and> v = Ref (length h) \<and>
             v \<noteq> Ref (length h2) \<and> (allocated h (state s) \<longrightarrow> v \<noteq> state s)"
    if "typeof updater = ''object''"
  proof -
    from ap apply_updater_object [OF that, of call h "state s"]
    have "h2 = h @ [literal_props h [state s, updater]]" and "v = Ref (length h)" by simp_all
    then show ?thesis by (cases "state s") auto
  qed
  have fn: "\<exists>f. updater = Fn f \<and> call f h (state s) = Inr (h2, v)"
    if "typeof updater = ''function''"
    using ap apply_updater_function [OF that, of call h "state s"] by auto
  from v h' snap absent e2 e3 obj fn
  show "\<exists>h2. h' = h2 @ [literal_props h [state s]] \<and>
          (allocated h2 (state s') \<longrightarrow> state s' \<noteq> Ref (length h2)) \<and>
          (signals_read (store_signals s) signalGroup = Absent \<longrightarrow>
             evs = [] \<and> s' = s\<lparr>state := state s'\<rparr>) \<and>
          (signals_read (store_signals s) signalGroup \<noteq> Absent \<longrightarrow>
             (\<exists>rest. evs = Emitted signalGroup signalName [state s', Ref (length h2)] # rest \<and>
                     snd ` set (invocations rest) \<subseteq> {[state s', Ref (length h2)]})) \<and>
          (has_group (store_signals s) signalGroup \<longrightarrow>
             (\<exists>sg' rest.
                 Signal_emit (local_part beh) [state s', Ref (length h2)]
                   (signal_at (store_signals s) (Own signalGroup) signalName) = Some (sg', rest) \<and>
                 evs = Emitted signalGroup signalName [state s', Ref (length h2)] # rest \<and>
                 store_signals s' = put_at (store_signals s) (Own signalGroup) signalName sg' \<and>
                 ((\<forall>f\<in>set (set_values (listeners
                            (signal_at (store_signals s) (Own signalGroup) signalName))).
                      fst (beh f [state s', Ref (length h2)]) = []) \<longrightarrow>
                  invocations rest =
                    map (\<lambda>f. (f, [state s', Ref (length h2)]))
                      (set_values (listeners
                         (signal_at (store_signals s) (Own signalGroup) signalName)))))) \<and>
          (typeof updater = ''object'' \<longrightarrow>
             h2 = h @ [literal_props h [state s, updater]] \<and> state s' = Ref (length h) \<and>
             state s' \<noteq> Ref (length h2) \<and> (allocated h (state s) \<longrightarrow> state s' \<noteq> state s)) \<and>
          (typeof updater = ''function'' \<longrightarrow>
             (\<exists>f. updater = Fn f \<and> call f h (state s) = Inr (h2, state s')))"
    by blast
qed

theorem update_replaces_state_witness:
  "Store_update (run_listener onlooker returns_argument (Suc 0)) returns_argument (Ref 1)
      ''state'' ''changed'' counter_heap watched_store =
     Some (Inr (Ref 3), [Emitted ''state'' ''changed'' [Ref 3, Ref 4], Invoked 1 [Ref 3, Ref 4]],
           updated_heap, watched_store\<lparr>state := Ref 3\<rparr>) \<and>
   local_only onlooker \<and> typeof (Ref 1) = ''object'' \<and>
   allocated counter_heap (state watched_store) \<and> has_group (store_signals watched_store) ''state'' \<and>
   Ref 3 \<noteq> state watched_store \<and>
   updated_heap ! 3 = [(''a'', Num 1), (''b'', Num 2)] \<and>
   updated_heap ! 4 = [(''a'', Num 0), (''b'', Num 2)] \<and>
   Store_update (run_listener onlooker returns_argument (Suc 0)) returns_argument (Fn 0)
      ''state'' ''changed'' counter_heap watched_store =
     Some (Inr (Ref 2), [Emitted ''state'' ''changed'' [Ref 2, Ref 3], Invoked 1 [Ref 2, Ref 3]],
           counter_heap @ [[(''a'', Num 0), (''b'', Num 2)]], watched_store) \<and>
   typeof (Fn 0) = ''function'' \<and> allocated counter_heap (Ref 2) \<and> Ref 2 \<noteq> Ref (length counter_heap)"
proof -
  have run: "Store_update (run_listener onlooker returns_argument (Suc 0)) returns_argument (Ref 1)
      ''state'' ''changed'' counter_heap watched_store =
     Some (Inr (Ref 3), [Emitted ''state'' ''changed'' [Ref 3, Ref 4], Invoked 1 [Ref 3, Ref 4]],
           updated_heap, watched_store\<lparr>state := Ref 3\<rparr>)"
    by (simp add: Store_update_def apply_updater_def object_literal_eq literal_props_def alloc_def
        onlooker_def watched_store_def updated_heap_def
        counter_heap_def base_heap_def signals_read_def emit_on_def channel_def
        SignalGroup_get_def forEach_in.simps entries_at_def
        signal_at_def run_listener.simps)
  have run2: "Store_update (run_listener onlooker returns_argument (Suc 0)) returns_argument (Fn 0)
      ''state'' ''changed'' counter_heap watched_store =
     Some (Inr (Ref 2), [Emitted ''state'' ''changed'' [Ref 2, Ref 3], Invoked 1 [Ref 2, Ref 3]],
           counter_heap @ [[(''a'', Num 0), (''b'', Num 2)]], watched_store)"
    by (simp add: Store_update_def apply_updater_def object_literal_eq literal_props_def alloc_def
        onlooker_def watched_store_def returns_argument_def
        counter_heap_def base_heap_def signals_read_def emit_on_def channel_def
        SignalGroup_get_def forEach_in.simps entries_at_def
        signal_at_def run_listener.simps)
  have loc: "local_only onlooker" by (simp add: local_only_def onlooker_def)
  have hyp: "typeof (Ref 1) = ''object''" "allocated counter_heap (state watched_store)"
    "has_group (store_signals watched_store) ''state''" "typeof (Fn 0) = ''function''"
    "allocated counter_heap (Ref 2)"
    by (simp_all add: counter_heap_def base_heap_def watched_store_def has_group_def)
  from update_replaces_state [OF run, THEN conjunct2, THEN mp, OF loc] hyp
  have a: "Ref 3 \<noteq> state watched_store" by auto
  from update_replaces_state [OF run2, THEN conjunct2, THEN mp, OF loc] hyp
  have b: "Ref 2 \<noteq> Ref (length counter_heap)"
    by (auto simp: watched_store_def)
  have c: "updated_heap ! 3 = [(''a'', Num 1), (''b'', Num 2)]"
    "updated_heap ! 4 = [(''a'', Num 0), (''b'', Num 2)]"
    by (simp_all add: updated_heap_def counter_heap_def base_heap_def)
  from run run2 loc hyp a b c show ?thesis by blast
qed

subsection \<open>Claim C5\<close>

text \<open>
  Claim C5 says that the listeners an emission calls are fixed when it begins. They are
  not: \<^verbatim>\<open>Set.prototype.forEach\<close> runs over the live set. With listeners 1 and 2
  registered, a listener 1 that connects listener 3 makes the same emission call 3 as
  well, and a listener 1 that disconnects listener 2 keeps the emission from calling 2.
\<close>

theorem emit_listener_set_not_fixed_counterexample:
  "set_values (listeners two_listeners) = [1, 2] \<and>
   Signal_emit late_joiner [] two_listeners =
     Some (\<lparr>listeners = [Some 1, None, Some 2, Some 3]\<rparr>,
           [Invoked 1 [], Invoked 2 [], Invoked 3 []]) \<and>
   Signal_emit remover [] two_listeners =
     Some (\<lparr>listeners = [Some 1, None, None]\<rparr>, [Invoked 1 []])"
  by (simp add: Signal_emit_def two_listeners_def late_joiner_def remover_def forEach.simps
        call_listener_def Signal_connect_def Signal_disconnect_def set_add_def set_delete_def)

text \<open>
  Claim C5, amended. An emission runs over the live listener set. If no registered
  listener changes the set while it runs, the emission calls exactly the listeners
  registered when it began, in order (first part). In general, when \<^verbatim>\<open>emit\<close> returns it
  has called every listener that is registered at that moment, those connected during the
  emission included, and every listener it has called was registered when it began or
  was connected by a listener that the emission called (second part). Where no listener
  ever connects \<open>g\<close>: once the emission has called a listener \<open>f\<close> that disconnects
  \<open>g\<close>, it does not call \<open>g\<close> afterwards; so if \<open>g\<close> is another listener and had
  not been called before, the emission does not call it at all, and if \<open>g\<close> is \<open>f\<close>
  itself it has been called and is not called again (third part).
\<close>

theorem emit_iterates_live_listener_set:
  "((\<forall>f\<in>set (set_values (listeners s)). fst (beh f args) = []) \<longrightarrow>
      (\<exists>evs. Signal_emit beh args s = Some (s, evs) \<and>
             map fst (invocations evs) = set_values (listeners s))) \<and>
   (\<forall>s' evs. Signal_emit beh args s = Some (s', evs) \<longrightarrow>
      set (set_values (listeners s')) \<subseteq> fst ` set (invocations evs) \<and>
      fst ` set (invocations evs) \<subseteq>
        set (set_values (listeners s)) \<union> {g. Connect (Fn g) \<in> set (executed beh evs)}) \<and>
   (\<forall>s' evs pre post f xs g. Signal_emit beh args s = Some (s', evs) \<longrightarrow>
      evs = pre @ Invoked f xs # post \<longrightarrow>
      Disconnect (Fn g) \<in> set (fst (beh f xs)) \<longrightarrow>
      (\<forall>f' ys. Connect (Fn g) \<notin> set (fst (beh f' ys))) \<longrightarrow>
      g \<notin> fst ` set (invocations post) \<and>
      (g \<noteq> f \<longrightarrow> g \<notin> fst ` set (invocations pre) \<longrightarrow> g \<notin> fst ` set (invocations evs)))"
proof (intro conjI allI impI)
  assume "\<forall>f\<in>set (set_values (listeners s)). fst (beh f args) = []"
  then show "\<exists>evs. Signal_emit beh args s = Some (s, evs) \<and>
             map fst (invocations evs) = set_values (listeners s)"
    by (simp add: Signal_emit_quiet invocations_concat_events comp_def)
next
  fix s' evs
  assume "Signal_emit beh args s = Some (s', evs)"
  then have run: "forEach beh args 0 s [] = Some (s', evs)" by (simp add: Signal_emit_def)
  from forEach_final_invoked_aux [OF run]
  show "set (set_values (listeners s')) \<subseteq> fst ` set (invocations evs)" by simp
  from forEach_origin_aux [OF run]
  show "fst ` set (invocations evs) \<subseteq>
        set (set_values (listeners s)) \<union> {g. Connect (Fn g) \<in> set (executed beh evs)}"
    by simp
next
  fix s' evs pre post f xs g
  assume run: "Signal_emit beh args s = Some (s', evs)"
    and split: "evs = pre @ Invoked f xs # post"
    and dis: "Disconnect (Fn g) \<in> set (fst (beh f xs))"
    and nc: "\<forall>f' ys. Connect (Fn g) \<notin> set (fst (beh f' ys))"
  from Signal_emit_after_disconnect [OF run split dis nc]
  show after: "g \<notin> fst ` set (invocations post)" .
  assume "g \<noteq> f" and "g \<notin> fst ` set (invocations pre)"
  with after split show "g \<notin> fst ` set (invocations evs)" by auto
qed

theorem emit_iterates_live_listener_set_witness:
  "fst (idle 1 []) = [] \<and> fst (idle 2 []) = [] \<and>
   (\<exists>evs. Signal_emit idle [] two_listeners = Some (two_listeners, evs) \<and>
          map fst (invocations evs) = [1, 2]) \<and>
   Signal_emit late_joiner [] two_listeners =
     Some (\<lparr>listeners = [Some 1, None, Some 2, Some 3]\<rparr>,
           [Invoked 1 [], Invoked 2 [], Invoked 3 []]) \<and>
   {1, 2, 3} \<subseteq> fst ` set (invocations [Invoked 1 [], Invoked 2 [], Invoked 3 []]) \<and>
   fst ` set (invocations [Invoked 1 [], Invoked 2 [], Invoked 3 []]) \<subseteq> {1, 2} \<union> {3} \<and>
   set_values (listeners three_listeners) = [1, 2, 3] \<and>
   Signal_emit remover [] three_listeners =
     Some (\<lparr>listeners = [Some 1, None, Some 3]\<rparr>, [Invoked 1 [], Invoked 3 []]) \<and>
   fst (remover 1 []) = [Disconnect (Fn 2)] \<and>
   (\<forall>f' ys. Connect (Fn 2) \<notin> set (fst (remover f' ys))) \<and>
   2 \<notin> fst ` set (invocations [Invoked 3 []]) \<and>
   2 \<notin> fst ` set (invocations [Invoked 1 [], Invoked 3 []]) \<and>
   Signal_emit once [] two_listeners =
     Some (\<lparr>listeners = [None, None, Some 2]\<rparr>, [Invoked 1 [], Invoked 2 []]) \<and>
   fst (once 1 []) = [Disconnect (Fn 1)] \<and>
   (\<forall>f' ys. Connect (Fn 1) \<notin> set (fst (once f' ys))) \<and>
   1 \<notin> fst ` set (invocations [Invoked 2 []])"
proof -
  have quiet: "fst (idle 1 []) = []" "fst (idle 2 []) = []"
    by (simp_all add: idle_def)
  have run: "Signal_emit late_joiner [] two_listeners =
     Some (\<lparr>listeners = [Some 1, None, Some 2, Some 3]\<rparr>,
           [Invoked 1 [], Invoked 2 [], Invoked 3 []])"
    by (simp add: Signal_emit_def two_listeners_def late_joiner_def forEach.simps
          call_listener_def Signal_connect_def set_add_def)
  have reg: "set_values (listeners three_listeners) = [1, 2, 3]"
    by (simp add: three_listeners_def)
  have run2: "Signal_emit remover [] three_listeners =
     Some (\<lparr>listeners = [Some 1, None, Some 3]\<rparr>, [Invoked 1 [], Invoked 3 []])"
    by (simp add: Signal_emit_def three_listeners_def remover_def forEach.simps
          call_listener_def Signal_disconnect_def set_delete_def)
  have split2: "[Invoked 1 [], Invoked 3 []] = [] @ Invoked 1 [] # [Invoked 3 []]" by simp
  have dis: "Disconnect (Fn 2) \<in> set (fst (remover 1 []))"
    and dis': "fst (remover 1 []) = [Disconnect (Fn 2)]"
    and nc: "\<forall>f' ys. Connect (Fn 2) \<notin> set (fst (remover f' ys))"
    by (simp_all add: remover_def)
  have run3: "Signal_emit once [] two_listeners =
     Some (\<lparr>listeners = [None, None, Some 2]\<rparr>, [Invoked 1 [], Invoked 2 []])"
    by (simp add: Signal_emit_def two_listeners_def once_def forEach.simps
          call_listener_def Signal_disconnect_def set_delete_def)
  have split3: "[Invoked 1 [], Invoked 2 []] = [] @ Invoked 1 [] # [Invoked 2 []]" by simp
  have dis3: "Disconnect (Fn 1) \<in> set (fst (once 1 []))"
    and dis3': "fst (once 1 []) = [Disconnect (Fn 1)]"
    and nc3: "\<forall>f' ys. Connect (Fn 1) \<notin> set (fst (once f' ys))"
    by (simp_all add: once_def)
  from emit_iterates_live_listener_set [of two_listeners idle "[]"] quiet
  have a: "\<exists>evs. Signal_emit idle [] two_listeners = Some (two_listeners, evs) \<and>
          map fst (invocations evs) = [1, 2]"
    by (simp add: two_listeners_def)
  from emit_iterates_live_listener_set [of two_listeners late_joiner "[]"] run
  have b: "{1, 2, 3} \<subseteq> fst ` set (invocations [Invoked 1 [], Invoked 2 [], Invoked 3 []])"
    by simp
  have c: "fst ` set (invocations [Invoked 1 [], Invoked 2 [], Invoked 3 []]) \<subseteq> {1, 2} \<union> {3}"
    by auto
  note third = emit_iterates_live_listener_set [of three_listeners remover "[]",
      THEN conjunct2, THEN conjunct2, rule_format, OF run2 split2 dis nc [rule_format]]
  from third have d: "2 \<notin> fst ` set (invocations [Invoked 3 []])"
    and e: "2 \<notin> fst ` set (invocations [Invoked 1 [], Invoked 3 []])"
    by simp_all
  note self = emit_iterates_live_listener_set [of two_listeners once "[]",
      THEN conjunct2, THEN conjunct2, rule_format, OF run3 split3 dis3 nc3 [rule_format]]
  from self have f: "1 \<notin> fst ` set (invocations [Invoked 2 []])" by simp
  from quiet a run b c reg run2 dis' nc d e run3 dis3' nc3 f show ?thesis by blast
qed

subsection \<open>Claim C6\<close>






subsection \<open>Claim C7\<close>

text \<open>
  Claim C7, on the store built by \<^verbatim>\<open>new Store({a: 0, b: 2})\<close>, which has no group
  \<^verbatim>\<open>toString\<close>. \<^verbatim>\<open>this.signals["toString"]\<close> is the method the signals object
  inherits, so \<^verbatim>\<open>update({a: 1}, "toString", "changed")\<close> assigns the new state and then
  throws a \<^verbatim>\<open>TypeError\<close> instead of returning, and
  \<^verbatim>\<open>connect("toString", "changed", listener)\<close> throws without creating a group,
  whatever the listeners and functions of the caller are.
\<close>

theorem update_on_inherited_group_name_throws:
  "map_of (own (store_signals counter_store)) ''toString'' = None \<and>
   signals_read (store_signals counter_store) ''toString'' = Foreign \<and>
   Store_update run call (Ref 1) ''toString'' ''changed'' counter_heap counter_store =
     Some (Inl (TypeError ''this.signals[signalGroup].get is not a function''), [],
           updated_heap, counter_store\<lparr>state := Ref 3\<rparr>) \<and>
   Store_connect ''toString'' ''changed'' (Fn 1) counter_heap counter_store =
     (Inl (TypeError ''this.signals[signalGroup].get is not a function''), [],
      counter_heap, counter_store)"
  by (simp add: Store_update_def Store_connect_def apply_updater_def object_literal_eq alloc_def
        literal_props_def updated_heap_def counter_heap_def base_heap_def counter_store_def
        signals_read_def object_prototype_names_def emit_on_def channel_def)


subsection \<open>Claim C8\<close>

text \<open>
  Claim C8 says that the entries of a list selector are read as flat keys. They are
  handed to \<^verbatim>\<open>select\<close> again, which splits a string at its dots: on the state
  \<^verbatim>\<open>{user: {name: "Alice"}}\<close>, \<^verbatim>\<open>select(["user.name"])\<close> is
  \<^verbatim>\<open>{"user.name": "Alice"}\<close>, although the state has no property \<^verbatim>\<open>user.name\<close>.
\<close>

theorem select_list_follows_dot_paths_counterexample:
  "Store_select returns_argument (SelArray [''user.name'']) user_heap user_store =
     Inr (user_heap @ [[(''user.name'', Str ''Alice'')]], Ref 2) \<and>
   get_prop user_heap (state user_store) ''user.name'' = Undefined \<and>
   path_step user_heap (state user_store) ''user.name'' = Undefined"
  by (simp add: user_heap_def user_store_def alloc_def select_path_def path_step_def set_prop_def)

text \<open>
  Claim C8, amended. For a list of strings \<^verbatim>\<open>select\<close> returns a new object whose keys
  are the entries (the key \<^verbatim>\<open>__proto__\<close> apart, which sets no property), each mapped to
  what \<^verbatim>\<open>select\<close> returns for that entry as a string selector, that is, to the value at
  the end of its dot-delimited path. For an entry without a dot this is the value of the
  flat key.
\<close>

theorem select_list_selects_each_entry:
  "\<exists>ps. Store_select call (SelArray ks) h s = Inr (h @ [ps], Ref (length h)) \<and>
        fst ` set ps = set ks - {''__proto__''} \<and>
        (\<forall>k\<in>set ks. k \<noteq> ''__proto__'' \<longrightarrow>
            Store_select call (SelString k) h s = Inr (h, select_path h (state s) k) \<and>
            map_of ps k = Some (select_path h (state s) k) \<and>
            (CHR ''.'' \<notin> set k \<longrightarrow> select_path h (state s) k = path_step h (state s) k))"
  by (simp add: alloc_def fold_set_prop_lookup fold_set_prop_keys select_path_def split_dot_flat)

theorem select_list_selects_each_entry_witness:
  "Store_select returns_argument (SelArray [''user.name'', ''user'']) user_heap user_store =
     Inr (user_heap @ [[(''user.name'', Str ''Alice''), (''user'', Ref 1)]], Ref 2) \<and>
   Store_select returns_argument (SelString ''user.name'') user_heap user_store =
     Inr (user_heap, Str ''Alice'') \<and>
   select_path user_heap (state user_store) ''user'' = path_step user_heap (state user_store) ''user''"
proof -
  have run: "Store_select returns_argument (SelArray [''user.name'', ''user'']) user_heap user_store =
     Inr (user_heap @ [[(''user.name'', Str ''Alice''), (''user'', Ref 1)]], Ref 2)"
    by (simp add: user_heap_def user_store_def alloc_def select_path_def path_step_def set_prop_def)
  have path: "select_path user_heap (state user_store) ''user.name'' = Str ''Alice''"
    by (simp add: user_heap_def user_store_def select_path_def path_step_def)
  from select_list_selects_each_entry [of returns_argument "[''user.name'', ''user'']" user_heap user_store]
  obtain ps where "\<forall>k\<in>set [''user.name'', ''user'']. k \<noteq> ''__proto__'' \<longrightarrow>
            Store_select returns_argument (SelString k) user_heap user_store =
              Inr (user_heap, select_path user_heap (state user_store) k) \<and>
            map_of ps k = Some (select_path user_heap (state user_store) k) \<and>
            (CHR ''.'' \<notin> set k \<longrightarrow>
               select_path user_heap (state user_store) k = path_step user_heap (state user_store) k)"
    by blast
  then have "Store_select returns_argument (SelString ''user.name'') user_heap user_store =
          Inr (user_heap, select_path user_heap (state user_store) ''user.name'') \<and>
        select_path user_heap (state user_store) ''user'' = path_step user_heap (state user_store) ''user''"
    by simp
  with run path show ?thesis by simp
qed

subsection \<open>Claim C9\<close>

text \<open>
  Claim C9, on the same store, which has no group \<^verbatim>\<open>constructor\<close>:
  \<^verbatim>\<open>connect("constructor", "click", 42)\<close> throws a \<^verbatim>\<open>TypeError\<close>, but from the missing
  method \<^verbatim>\<open>get\<close> of the inherited value, and afterwards the store is unchanged: no
  group and no channel were created.
\<close>

theorem connect_on_inherited_group_name_creates_nothing:
  "map_of (own (store_signals counter_store)) ''constructor'' = None \<and>
   typeof (Num 42) = ''number'' \<and>
   Store_connect ''constructor'' ''click'' (Num 42) counter_heap counter_store =
     (Inl (TypeError ''this.signals[signalGroup].get is not a function''), [],
      counter_heap, counter_store)"
  by (simp add: Store_connect_def counter_store_def signals_read_def object_prototype_names_def
        channel_def)

subsection \<open>Claim C10\<close>

text \<open>
  Claim C10. With \<^verbatim>\<open>null\<close> as group specification the constructor throws a
  \<^verbatim>\<open>TypeError\<close> (from \<^verbatim>\<open>Object.keys(null)\<close>), also through \<^verbatim>\<open>createStore\<close>; with the
  argument omitted or \<^verbatim>\<open>undefined\<close> the default \<^verbatim>\<open>["state"]\<close> applies and the store
  is built with the single group \<^verbatim>\<open>state\<close>.
\<close>

theorem store_with_null_groups_throws:
  "Store_new initialState NullSpec h =
     Inl (TypeError ''Cannot convert undefined or null to object'') \<and>
   createStore initialState NullSpec h =
     Inl (TypeError ''Cannot convert undefined or null to object'') \<and>
   createStore initialState Omitted h = Store_new initialState (NameList [''state'']) h \<and>
   (\<exists>s. createStore initialState Omitted h = Inr (h @ [literal_props h [initialState]], s) \<and>
        own (store_signals s) = [(''state'', SignalGroup_new)])"
  by (simp add: createStore_def Store_new_def object_literal_eq new_groups_def
        signals_write_def signals_read_def)

end
